theory Spec2Isabelle
  imports Main "HOL-Library.Word"
begin

unbundle bit_operations_syntax

section \<open>Data model\<close>

text \<open>
  All data of \<^verbatim>\<open>aes.c\<close> are bytes (\<^verbatim>\<open>uint8_t\<close>).  A \<^verbatim>\<open>state_t\<close> is a
  \<^verbatim>\<open>uint8_t[4][4]\<close> laid over the 16 bytes of the block, so the element
  \<^verbatim>\<open>(*state)[c][r]\<close> is byte \<open>4 * c + r\<close> of the block.  A \<^verbatim>\<open>hamstate_t\<close>
  has the same shape.  Both are modelled as byte lists of length 16.
\<close>

type_synonym byte = "8 word"
type_synonym state_t = "byte list"
type_synonym hamstate_t = "byte list"

definition cell :: "nat \<Rightarrow> nat \<Rightarrow> nat" where
  "cell c r = 4 * c + r"

text \<open>
  The key size is selected in \<^verbatim>\<open>aes.h\<close>, which fixes the macros \<^verbatim>\<open>Nk\<close> and
  \<^verbatim>\<open>Nr\<close>; \<^verbatim>\<open>Nb\<close> is always 4.  The selection is a parameter of the model.
\<close>

datatype keysize = AES128 | AES192 | AES256

definition Nb :: nat where
  "Nb = 4"

fun Nk :: "keysize \<Rightarrow> nat" where
  "Nk AES256 = 8"
| "Nk AES192 = 6"
| "Nk AES128 = 4"

fun Nr :: "keysize \<Rightarrow> nat" where
  "Nr AES256 = 14"
| "Nr AES192 = 12"
| "Nr AES128 = 10"

text \<open>
  Modelled from the spec: \<^verbatim>\<open>AES_BLOCKLEN\<close> is declared in \<^verbatim>\<open>aes.h\<close>; the block is
  always 16 bytes.
\<close>

definition AES_BLOCKLEN :: nat where
  "AES_BLOCKLEN = 16"

text \<open>The only failure of the engine is the call \<^verbatim>\<open>exit(2)\<close> in \<^verbatim>\<open>compareCodes\<close>.\<close>

datatype error = Exit int

section \<open>Constant tables\<close>

definition sbox :: "byte list" where
  "sbox = [
    0x63, 0x7c, 0x77, 0x7b, 0xf2, 0x6b, 0x6f, 0xc5, 0x30, 0x01, 0x67, 0x2b, 0xfe, 0xd7, 0xab, 0x76,
    0xca, 0x82, 0xc9, 0x7d, 0xfa, 0x59, 0x47, 0xf0, 0xad, 0xd4, 0xa2, 0xaf, 0x9c, 0xa4, 0x72, 0xc0,
    0xb7, 0xfd, 0x93, 0x26, 0x36, 0x3f, 0xf7, 0xcc, 0x34, 0xa5, 0xe5, 0xf1, 0x71, 0xd8, 0x31, 0x15,
    0x04, 0xc7, 0x23, 0xc3, 0x18, 0x96, 0x05, 0x9a, 0x07, 0x12, 0x80, 0xe2, 0xeb, 0x27, 0xb2, 0x75,
    0x09, 0x83, 0x2c, 0x1a, 0x1b, 0x6e, 0x5a, 0xa0, 0x52, 0x3b, 0xd6, 0xb3, 0x29, 0xe3, 0x2f, 0x84,
    0x53, 0xd1, 0x00, 0xed, 0x20, 0xfc, 0xb1, 0x5b, 0x6a, 0xcb, 0xbe, 0x39, 0x4a, 0x4c, 0x58, 0xcf,
    0xd0, 0xef, 0xaa, 0xfb, 0x43, 0x4d, 0x33, 0x85, 0x45, 0xf9, 0x02, 0x7f, 0x50, 0x3c, 0x9f, 0xa8,
    0x51, 0xa3, 0x40, 0x8f, 0x92, 0x9d, 0x38, 0xf5, 0xbc, 0xb6, 0xda, 0x21, 0x10, 0xff, 0xf3, 0xd2,
    0xcd, 0x0c, 0x13, 0xec, 0x5f, 0x97, 0x44, 0x17, 0xc4, 0xa7, 0x7e, 0x3d, 0x64, 0x5d, 0x19, 0x73,
    0x60, 0x81, 0x4f, 0xdc, 0x22, 0x2a, 0x90, 0x88, 0x46, 0xee, 0xb8, 0x14, 0xde, 0x5e, 0x0b, 0xdb,
    0xe0, 0x32, 0x3a, 0x0a, 0x49, 0x06, 0x24, 0x5c, 0xc2, 0xd3, 0xac, 0x62, 0x91, 0x95, 0xe4, 0x79,
    0xe7, 0xc8, 0x37, 0x6d, 0x8d, 0xd5, 0x4e, 0xa9, 0x6c, 0x56, 0xf4, 0xea, 0x65, 0x7a, 0xae, 0x08,
    0xba, 0x78, 0x25, 0x2e, 0x1c, 0xa6, 0xb4, 0xc6, 0xe8, 0xdd, 0x74, 0x1f, 0x4b, 0xbd, 0x8b, 0x8a,
    0x70, 0x3e, 0xb5, 0x66, 0x48, 0x03, 0xf6, 0x0e, 0x61, 0x35, 0x57, 0xb9, 0x86, 0xc1, 0x1d, 0x9e,
    0xe1, 0xf8, 0x98, 0x11, 0x69, 0xd9, 0x8e, 0x94, 0x9b, 0x1e, 0x87, 0xe9, 0xce, 0x55, 0x28, 0xdf,
    0x8c, 0xa1, 0x89, 0x0d, 0xbf, 0xe6, 0x42, 0x68, 0x41, 0x99, 0x2d, 0x0f, 0xb0, 0x54, 0xbb, 0x16]"

definition rsbox :: "byte list" where
  "rsbox = [
    0x52, 0x09, 0x6a, 0xd5, 0x30, 0x36, 0xa5, 0x38, 0xbf, 0x40, 0xa3, 0x9e, 0x81, 0xf3, 0xd7, 0xfb,
    0x7c, 0xe3, 0x39, 0x82, 0x9b, 0x2f, 0xff, 0x87, 0x34, 0x8e, 0x43, 0x44, 0xc4, 0xde, 0xe9, 0xcb,
    0x54, 0x7b, 0x94, 0x32, 0xa6, 0xc2, 0x23, 0x3d, 0xee, 0x4c, 0x95, 0x0b, 0x42, 0xfa, 0xc3, 0x4e,
    0x08, 0x2e, 0xa1, 0x66, 0x28, 0xd9, 0x24, 0xb2, 0x76, 0x5b, 0xa2, 0x49, 0x6d, 0x8b, 0xd1, 0x25,
    0x72, 0xf8, 0xf6, 0x64, 0x86, 0x68, 0x98, 0x16, 0xd4, 0xa4, 0x5c, 0xcc, 0x5d, 0x65, 0xb6, 0x92,
    0x6c, 0x70, 0x48, 0x50, 0xfd, 0xed, 0xb9, 0xda, 0x5e, 0x15, 0x46, 0x57, 0xa7, 0x8d, 0x9d, 0x84,
    0x90, 0xd8, 0xab, 0x00, 0x8c, 0xbc, 0xd3, 0x0a, 0xf7, 0xe4, 0x58, 0x05, 0xb8, 0xb3, 0x45, 0x06,
    0xd0, 0x2c, 0x1e, 0x8f, 0xca, 0x3f, 0x0f, 0x02, 0xc1, 0xaf, 0xbd, 0x03, 0x01, 0x13, 0x8a, 0x6b,
    0x3a, 0x91, 0x11, 0x41, 0x4f, 0x67, 0xdc, 0xea, 0x97, 0xf2, 0xcf, 0xce, 0xf0, 0xb4, 0xe6, 0x73,
    0x96, 0xac, 0x74, 0x22, 0xe7, 0xad, 0x35, 0x85, 0xe2, 0xf9, 0x37, 0xe8, 0x1c, 0x75, 0xdf, 0x6e,
    0x47, 0xf1, 0x1a, 0x71, 0x1d, 0x29, 0xc5, 0x89, 0x6f, 0xb7, 0x62, 0x0e, 0xaa, 0x18, 0xbe, 0x1b,
    0xfc, 0x56, 0x3e, 0x4b, 0xc6, 0xd2, 0x79, 0x20, 0x9a, 0xdb, 0xc0, 0xfe, 0x78, 0xcd, 0x5a, 0xf4,
    0x1f, 0xdd, 0xa8, 0x33, 0x88, 0x07, 0xc7, 0x31, 0xb1, 0x12, 0x10, 0x59, 0x27, 0x80, 0xec, 0x5f,
    0x60, 0x51, 0x7f, 0xa9, 0x19, 0xb5, 0x4a, 0x0d, 0x2d, 0xe5, 0x7a, 0x9f, 0x93, 0xc9, 0x9c, 0xef,
    0xa0, 0xe0, 0x3b, 0x4d, 0xae, 0x2a, 0xf5, 0xb0, 0xc8, 0xeb, 0xbb, 0x3c, 0x83, 0x53, 0x99, 0x61,
    0x17, 0x2b, 0x04, 0x7e, 0xba, 0x77, 0xd6, 0x26, 0xe1, 0x69, 0x14, 0x63, 0x55, 0x21, 0x0c, 0x7d]"

definition Rcon :: "byte list" where
  "Rcon = [
    0x8d, 0x01, 0x02, 0x04, 0x08, 0x10, 0x20, 0x40, 0x80, 0x1b, 0x36]"

definition h_rd :: "byte list" where
  "h_rd = [
    0x02, 0x0e, 0x09, 0x05, 0x03, 0x0b, 0x0e, 0x00, 0x08, 0x03, 0x07, 0x01, 0x0f, 0x03, 0x0d, 0x0a,
    0x02, 0x01, 0x0c, 0x0d, 0x0a, 0x0e, 0x01, 0x0e, 0x05, 0x0d, 0x07, 0x08, 0x0e, 0x0f, 0x0f, 0x06,
    0x0f, 0x01, 0x0c, 0x0e, 0x00, 0x0a, 0x05, 0x0a, 0x0d, 0x0c, 0x06, 0x0d, 0x01, 0x01, 0x0b, 0x08,
    0x05, 0x0d, 0x08, 0x08, 0x07, 0x0a, 0x06, 0x06, 0x0b, 0x03, 0x0c, 0x0d, 0x07, 0x0d, 0x09, 0x04,
    0x0a, 0x02, 0x0a, 0x0a, 0x09, 0x0d, 0x00, 0x0a, 0x09, 0x0f, 0x00, 0x0a, 0x0c, 0x0e, 0x04, 0x09,
    0x0a, 0x0b, 0x00, 0x0f, 0x06, 0x02, 0x07, 0x03, 0x08, 0x01, 0x05, 0x02, 0x0e, 0x06, 0x0d, 0x04,
    0x08, 0x02, 0x0e, 0x09, 0x04, 0x05, 0x06, 0x0a, 0x0c, 0x04, 0x0d, 0x00, 0x04, 0x04, 0x00, 0x03,
    0x07, 0x04, 0x0a, 0x0e, 0x0f, 0x0d, 0x01, 0x08, 0x08, 0x0c, 0x0c, 0x05, 0x0e, 0x0c, 0x00, 0x05,
    0x09, 0x0c, 0x00, 0x0c, 0x06, 0x09, 0x0f, 0x05, 0x03, 0x01, 0x03, 0x07, 0x09, 0x0b, 0x04, 0x0c,
    0x0c, 0x0f, 0x08, 0x04, 0x0b, 0x02, 0x02, 0x05, 0x02, 0x01, 0x0d, 0x0b, 0x09, 0x05, 0x07, 0x0f,
    0x00, 0x05, 0x0c, 0x04, 0x00, 0x08, 0x03, 0x08, 0x0b, 0x06, 0x06, 0x01, 0x01, 0x04, 0x05, 0x08,
    0x0b, 0x0f, 0x03, 0x03, 0x03, 0x0e, 0x0b, 0x00, 0x00, 0x0c, 0x0b, 0x04, 0x0a, 0x06, 0x0b, 0x09,
    0x00, 0x0b, 0x00, 0x07, 0x02, 0x02, 0x01, 0x0e, 0x09, 0x07, 0x07, 0x0c, 0x0d, 0x0b, 0x0b, 0x08,
    0x02, 0x09, 0x02, 0x04, 0x03, 0x0e, 0x06, 0x01, 0x0f, 0x0e, 0x0f, 0x0e, 0x04, 0x05, 0x01, 0x03,
    0x03, 0x07, 0x0b, 0x0d, 0x06, 0x02, 0x0d, 0x07, 0x05, 0x0f, 0x07, 0x0a, 0x07, 0x02, 0x0f, 0x0a,
    0x00, 0x09, 0x06, 0x0f, 0x06, 0x08, 0x07, 0x05, 0x09, 0x08, 0x09, 0x02, 0x04, 0x01, 0x03, 0x06]"

definition getSBoxValue :: "byte \<Rightarrow> byte" where
  "getSBoxValue num = sbox ! unat num"

definition getSBoxInvert :: "byte \<Rightarrow> byte" where
  "getSBoxInvert num = rsbox ! unat num"

definition getHBoxValue :: "byte \<Rightarrow> byte" where
  "getHBoxValue num = h_rd ! unat num"

section \<open>Field arithmetic\<close>

definition xtime :: "byte \<Rightarrow> byte" where
  "xtime x = push_bit 1 x XOR ((drop_bit 7 x AND 1) * 0x1b)"

definition Multiply :: "byte \<Rightarrow> byte \<Rightarrow> byte" where
  "Multiply x y =
     ((y AND 1) * x) XOR
     ((drop_bit 1 y AND 1) * xtime x) XOR
     ((drop_bit 2 y AND 1) * xtime (xtime x)) XOR
     ((drop_bit 3 y AND 1) * xtime (xtime (xtime x))) XOR
     ((drop_bit 4 y AND 1) * xtime (xtime (xtime (xtime x))))"

section \<open>Hamming codec\<close>

definition get_bit :: "byte \<Rightarrow> nat \<Rightarrow> byte" where
  "get_bit byte bitnum = drop_bit bitnum byte AND 0x01"

definition flip_bit :: "byte \<Rightarrow> nat \<Rightarrow> byte" where
  "flip_bit byte target = byte XOR push_bit target 0x01"

definition hamming_encode :: "byte \<Rightarrow> byte" where
  "hamming_encode given =
     (let zero = get_bit given 0;
          one = get_bit given 1;
          two = get_bit given 2;
          three = get_bit given 3;
          four = get_bit given 4;
          five = get_bit given 5;
          six = get_bit given 6;
          seven = get_bit given 7;
          setzero = three XOR two XOR one XOR zero;
          setone = six XOR five XOR four XOR zero;
          settwo = seven XOR five XOR four XOR two XOR one;
          setthree = seven XOR six XOR four XOR three XOR one
      in setzero OR push_bit 1 setone OR push_bit 2 settwo OR push_bit 3 setthree)"

text \<open>
  \<^verbatim>\<open>correct_state\<close> visits every cell.  \<open>correct_cell\<close> is the body of its two loops,
  which reads and writes only the cell it visits, and \<open>find_positions\<close> is the walk
  over \<open>x = 3, 2, 1, 0\<close> inside it.  \<^verbatim>\<open>pone\<close>, \<^verbatim>\<open>ptwo\<close> and \<^verbatim>\<open>x\<close> are \<^verbatim>\<open>int8_t\<close>.
  The calls of \<^verbatim>\<open>printf\<close> are left out.
\<close>

definition find_positions :: "byte \<Rightarrow> int \<times> int" where
  "find_positions diff =
     fold (\<lambda>x (pone, ptwo).
             if drop_bit (nat x) diff mod 2 = 0
             then (if pone = -1 then (x, ptwo)
                   else if ptwo = -1 then (pone, x)
                   else (pone, ptwo))
             else (pone, ptwo))
          [3, 2, 1, 0] (-1, -1)"

definition correct_cell :: "byte \<Rightarrow> byte \<Rightarrow> byte \<Rightarrow> byte" where
  "correct_cell s h p =
     (let diff = h XOR p in
      if diff \<noteq> 0 then
        (let (pone, ptwo) = find_positions diff in
         if pone = 3 \<and> ptwo = 2 then flip_bit s 0x00
         else if pone = 3 \<and> ptwo = 1 then flip_bit s 0x02
         else if pone = 3 \<and> ptwo = 0 then flip_bit s 0x05
         else if pone = 2 \<and> ptwo = 1 then flip_bit s 0x03
         else if pone = 2 \<and> ptwo = 0 then flip_bit s 0x06
         else if pone = 1 \<and> ptwo = 0 then flip_bit s 0x07
         else if pone = 1 \<and> ptwo = -1 then flip_bit s 0x01
         else if pone = 0 \<and> ptwo = -1 then flip_bit s 0x04
         else s)
      else s)"

definition correct_state :: "state_t \<Rightarrow> hamstate_t \<Rightarrow> hamstate_t \<Rightarrow> state_t" where
  "correct_state state hamstate pcode =
     fold (\<lambda>r state.
       fold (\<lambda>c state.
         state[cell c r := correct_cell (state ! cell c r) (hamstate ! cell c r) (pcode ! cell c r)])
       [0..<4] state)
     [0..<4] state"

text \<open>
  \<^verbatim>\<open>encode_state\<close> writes all 16 cells of its out-parameter \<^verbatim>\<open>hamstate\<close> and
  reads none of them, so the model returns the array it has filled:
  cell \<open>[c][r]\<close> holds the code of \<^verbatim>\<open>(*state)[c][r]\<close>.
\<close>

definition encode_state :: "state_t \<Rightarrow> hamstate_t" where
  "encode_state state =
     concat (map (\<lambda>c. map (\<lambda>r. hamming_encode (state ! cell c r)) [0..<4]) [0..<4])"

section \<open>Parity predictors\<close>

definition predictAddKey :: "nat \<Rightarrow> state_t \<Rightarrow> byte list \<Rightarrow> hamstate_t \<Rightarrow> hamstate_t" where
  "predictAddKey round state RoundKey pcode =
     fold (\<lambda>i pcode.
       fold (\<lambda>j pcode.
         pcode[cell i j := pcode ! cell i j XOR
                           hamming_encode (RoundKey ! ((round * Nb * 4) + (i * Nb) + j))])
       [0..<4] pcode)
     [0..<4] pcode"

definition predictSub :: "state_t \<Rightarrow> hamstate_t \<Rightarrow> hamstate_t" where
  "predictSub state pcode =
     fold (\<lambda>i pcode.
       fold (\<lambda>j pcode. pcode[cell j i := getHBoxValue (state ! cell j i)])
       [0..<4] pcode)
     [0..<4] pcode"

definition predictShift :: "hamstate_t \<Rightarrow> hamstate_t" where
  "predictShift pcode =
     (let temp = pcode ! cell 0 1;
          pcode = pcode[cell 0 1 := pcode ! cell 1 1];
          pcode = pcode[cell 1 1 := pcode ! cell 2 1];
          pcode = pcode[cell 2 1 := pcode ! cell 3 1];
          pcode = pcode[cell 3 1 := temp];
          temp = pcode ! cell 0 2;
          pcode = pcode[cell 0 2 := pcode ! cell 2 2];
          pcode = pcode[cell 2 2 := temp];
          temp = pcode ! cell 1 2;
          pcode = pcode[cell 1 2 := pcode ! cell 3 2];
          pcode = pcode[cell 3 2 := temp];
          temp = pcode ! cell 0 3;
          pcode = pcode[cell 0 3 := pcode ! cell 3 3];
          pcode = pcode[cell 3 3 := pcode ! cell 2 3];
          pcode = pcode[cell 2 3 := pcode ! cell 1 3];
          pcode = pcode[cell 1 3 := temp]
      in pcode)"

definition predictMixCols :: "state_t \<Rightarrow> hamstate_t \<Rightarrow> hamstate_t" where
  "predictMixCols state pcode =
     fold (\<lambda>c pcode.
       (let pcode = pcode[cell c 0 :=
              hamming_encode (xtime (state ! cell c 0)) XOR
              hamming_encode (Multiply (state ! cell c 1) 0x03) XOR
              hamming_encode (state ! cell c 2) XOR hamming_encode (state ! cell c 3)];
            pcode = pcode[cell c 1 :=
              hamming_encode (state ! cell c 0) XOR
              hamming_encode (xtime (state ! cell c 1)) XOR
              hamming_encode (Multiply (state ! cell c 2) 0x03) XOR
              hamming_encode (state ! cell c 3)];
            pcode = pcode[cell c 2 :=
              hamming_encode (state ! cell c 0) XOR hamming_encode (state ! cell c 1) XOR
              hamming_encode (xtime (state ! cell c 2)) XOR
              hamming_encode (Multiply (state ! cell c 3) 0x03)];
            pcode = pcode[cell c 3 :=
              hamming_encode (Multiply (state ! cell c 0) 0x03) XOR
              hamming_encode (state ! cell c 1) XOR hamming_encode (state ! cell c 2) XOR
              hamming_encode (xtime (state ! cell c 3))]
        in pcode))
     [0..<4] pcode"

section \<open>Compare and correct\<close>

text \<open>
  \<^verbatim>\<open>memcmp\<close> over the 16 bytes of two \<^verbatim>\<open>hamstate_t\<close> is nonzero exactly when the
  arrays differ.  The call of \<^verbatim>\<open>encode_state\<close> between \<^verbatim>\<open>correct_state\<close> and the
  second \<^verbatim>\<open>memcmp\<close> is commented out in the source, so the second comparison
  reads the same two arrays as the first.  \<^verbatim>\<open>exit(2)\<close> ends the process: no state
  is returned.
\<close>

definition compareCodes :: "state_t \<Rightarrow> hamstate_t \<Rightarrow> hamstate_t \<Rightarrow> error + state_t" where
  "compareCodes state hamstate pcode =
     (if hamstate \<noteq> pcode then
        (let state = correct_state state hamstate pcode in
         if hamstate \<noteq> pcode then Inl (Exit 2) else Inr state)
      else Inr state)"

section \<open>Key schedule\<close>

text \<open>
  \<^verbatim>\<open>KeyExpansion\<close> has two loops.  \<open>KeyExpansion_first\<close> is the body of the first,
  which copies the key.  \<open>KeyExpansion_next\<close> is the body of the second: it loads
  \<^verbatim>\<open>tempa\<close> from word \<open>i - 1\<close>, changes it (\<open>KeyExpansion_tempa\<close>: \<^verbatim>\<open>RotWord\<close>,
  \<^verbatim>\<open>SubWord\<close> and the round constant) and stores word \<open>i\<close>.  The second
  \<^verbatim>\<open>SubWord\<close> is compiled only for \<^verbatim>\<open>AES256\<close>.  \<^verbatim>\<open>RoundKey\<close> is the array of the
  context, overwritten in place.
\<close>

definition KeyExpansion_first :: "nat \<Rightarrow> byte list \<Rightarrow> byte list \<Rightarrow> byte list" where
  "KeyExpansion_first i RoundKey Key =
     (let RoundKey = RoundKey[(i * 4) + 0 := Key ! ((i * 4) + 0)];
          RoundKey = RoundKey[(i * 4) + 1 := Key ! ((i * 4) + 1)];
          RoundKey = RoundKey[(i * 4) + 2 := Key ! ((i * 4) + 2)];
          RoundKey = RoundKey[(i * 4) + 3 := Key ! ((i * 4) + 3)]
      in RoundKey)"

definition KeyExpansion_tempa :: "keysize \<Rightarrow> nat \<Rightarrow> byte list \<Rightarrow> byte list" where
  "KeyExpansion_tempa v i tempa =
     (let tempa =
            (if i mod Nk v = 0 then
               (let u8tmp = tempa ! 0;
                    tempa = tempa[0 := tempa ! 1];
                    tempa = tempa[1 := tempa ! 2];
                    tempa = tempa[2 := tempa ! 3];
                    tempa = tempa[3 := u8tmp];
                    tempa = tempa[0 := getSBoxValue (tempa ! 0)];
                    tempa = tempa[1 := getSBoxValue (tempa ! 1)];
                    tempa = tempa[2 := getSBoxValue (tempa ! 2)];
                    tempa = tempa[3 := getSBoxValue (tempa ! 3)];
                    tempa = tempa[0 := tempa ! 0 XOR Rcon ! (i div Nk v)]
                in tempa)
             else tempa);
          tempa =
            (if v = AES256 \<and> i mod Nk v = 4 then
               (let tempa = tempa[0 := getSBoxValue (tempa ! 0)];
                    tempa = tempa[1 := getSBoxValue (tempa ! 1)];
                    tempa = tempa[2 := getSBoxValue (tempa ! 2)];
                    tempa = tempa[3 := getSBoxValue (tempa ! 3)]
                in tempa)
             else tempa)
      in tempa)"

definition KeyExpansion_next :: "keysize \<Rightarrow> nat \<Rightarrow> byte list \<Rightarrow> byte list" where
  "KeyExpansion_next v i RoundKey =
     (let k = (i - 1) * 4;
          tempa = [RoundKey ! (k + 0), RoundKey ! (k + 1),
                   RoundKey ! (k + 2), RoundKey ! (k + 3)];
          tempa = KeyExpansion_tempa v i tempa;
          j = i * 4;
          k = (i - Nk v) * 4;
          RoundKey = RoundKey[j + 0 := RoundKey ! (k + 0) XOR tempa ! 0];
          RoundKey = RoundKey[j + 1 := RoundKey ! (k + 1) XOR tempa ! 1];
          RoundKey = RoundKey[j + 2 := RoundKey ! (k + 2) XOR tempa ! 2];
          RoundKey = RoundKey[j + 3 := RoundKey ! (k + 3) XOR tempa ! 3]
      in RoundKey)"

definition KeyExpansion :: "keysize \<Rightarrow> byte list \<Rightarrow> byte list \<Rightarrow> byte list" where
  "KeyExpansion v RoundKey Key =
     (let RoundKey = fold (\<lambda>i RoundKey. KeyExpansion_first i RoundKey Key) [0..<Nk v] RoundKey
      in fold (KeyExpansion_next v) [Nk v..<Nb * (Nr v + 1)] RoundKey)"

section \<open>Round transforms\<close>

text \<open>
  Each forward transform runs its predictor, mutates the state, re-encodes the
  state into \<^verbatim>\<open>hamstate\<close> and calls \<^verbatim>\<open>compareCodes\<close>.  The mutation of the state
  in the body of a transform \<open>T\<close> is the function \<open>T_state\<close>.  \<^verbatim>\<open>hamstate\<close> is
  overwritten before it is read, so it is a result of the transform only.
\<close>

type_synonym work = "state_t \<times> hamstate_t \<times> hamstate_t"

definition AddRoundKey_state :: "nat \<Rightarrow> state_t \<Rightarrow> byte list \<Rightarrow> state_t" where
  "AddRoundKey_state round state RoundKey =
     fold (\<lambda>i state.
       fold (\<lambda>j state.
         state[cell i j := state ! cell i j XOR RoundKey ! ((round * Nb * 4) + (i * Nb) + j)])
       [0..<4] state)
     [0..<4] state"

definition AddRoundKey :: "nat \<Rightarrow> state_t \<Rightarrow> byte list \<Rightarrow> hamstate_t \<Rightarrow> error + work" where
  "AddRoundKey round state RoundKey pcode =
     (let pcode = predictAddKey round state RoundKey pcode;
          state = AddRoundKey_state round state RoundKey;
          hamstate = encode_state state
      in case compareCodes state hamstate pcode of
           Inl e \<Rightarrow> Inl e
         | Inr state \<Rightarrow> Inr (state, hamstate, pcode))"

definition SubBytes_state :: "state_t \<Rightarrow> state_t" where
  "SubBytes_state state =
     fold (\<lambda>i state.
       fold (\<lambda>j state. state[cell j i := getSBoxValue (state ! cell j i)])
       [0..<4] state)
     [0..<4] state"

definition SubBytes :: "state_t \<Rightarrow> hamstate_t \<Rightarrow> error + work" where
  "SubBytes state pcode =
     (let pcode = predictSub state pcode;
          state = SubBytes_state state;
          hamstate = encode_state state
      in case compareCodes state hamstate pcode of
           Inl e \<Rightarrow> Inl e
         | Inr state \<Rightarrow> Inr (state, hamstate, pcode))"

definition ShiftRows_state :: "state_t \<Rightarrow> state_t" where
  "ShiftRows_state state =
     (let temp = state ! cell 0 1;
          state = state[cell 0 1 := state ! cell 1 1];
          state = state[cell 1 1 := state ! cell 2 1];
          state = state[cell 2 1 := state ! cell 3 1];
          state = state[cell 3 1 := temp];
          temp = state ! cell 0 2;
          state = state[cell 0 2 := state ! cell 2 2];
          state = state[cell 2 2 := temp];
          temp = state ! cell 1 2;
          state = state[cell 1 2 := state ! cell 3 2];
          state = state[cell 3 2 := temp];
          temp = state ! cell 0 3;
          state = state[cell 0 3 := state ! cell 3 3];
          state = state[cell 3 3 := state ! cell 2 3];
          state = state[cell 2 3 := state ! cell 1 3];
          state = state[cell 1 3 := temp]
      in state)"

definition ShiftRows :: "state_t \<Rightarrow> hamstate_t \<Rightarrow> error + work" where
  "ShiftRows state pcode =
     (let pcode = predictShift pcode;
          state = ShiftRows_state state;
          hamstate = encode_state state
      in case compareCodes state hamstate pcode of
           Inl e \<Rightarrow> Inl e
         | Inr state \<Rightarrow> Inr (state, hamstate, pcode))"

definition MixColumns_state :: "state_t \<Rightarrow> state_t" where
  "MixColumns_state state =
     fold (\<lambda>i state.
       (let t = state ! cell i 0;
            Tmp = state ! cell i 0 XOR state ! cell i 1 XOR state ! cell i 2 XOR state ! cell i 3;
            Tm = state ! cell i 0 XOR state ! cell i 1;
            Tm = xtime Tm;
            state = state[cell i 0 := state ! cell i 0 XOR (Tm XOR Tmp)];
            Tm = state ! cell i 1 XOR state ! cell i 2;
            Tm = xtime Tm;
            state = state[cell i 1 := state ! cell i 1 XOR (Tm XOR Tmp)];
            Tm = state ! cell i 2 XOR state ! cell i 3;
            Tm = xtime Tm;
            state = state[cell i 2 := state ! cell i 2 XOR (Tm XOR Tmp)];
            Tm = state ! cell i 3 XOR t;
            Tm = xtime Tm;
            state = state[cell i 3 := state ! cell i 3 XOR (Tm XOR Tmp)]
        in state))
     [0..<4] state"

definition MixColumns :: "state_t \<Rightarrow> hamstate_t \<Rightarrow> error + work" where
  "MixColumns state pcode =
     (let pcode = predictMixCols state pcode;
          state = MixColumns_state state;
          hamstate = encode_state state
      in case compareCodes state hamstate pcode of
           Inl e \<Rightarrow> Inl e
         | Inr state \<Rightarrow> Inr (state, hamstate, pcode))"

definition InvMixColumns :: "state_t \<Rightarrow> state_t" where
  "InvMixColumns state =
     fold (\<lambda>i state.
       (let a = state ! cell i 0;
            b = state ! cell i 1;
            c = state ! cell i 2;
            d = state ! cell i 3;
            state = state[cell i 0 :=
              Multiply a 0x0e XOR Multiply b 0x0b XOR Multiply c 0x0d XOR Multiply d 0x09];
            state = state[cell i 1 :=
              Multiply a 0x09 XOR Multiply b 0x0e XOR Multiply c 0x0b XOR Multiply d 0x0d];
            state = state[cell i 2 :=
              Multiply a 0x0d XOR Multiply b 0x09 XOR Multiply c 0x0e XOR Multiply d 0x0b];
            state = state[cell i 3 :=
              Multiply a 0x0b XOR Multiply b 0x0d XOR Multiply c 0x09 XOR Multiply d 0x0e]
        in state))
     [0..<4] state"

definition InvSubBytes :: "state_t \<Rightarrow> state_t" where
  "InvSubBytes state =
     fold (\<lambda>i state.
       fold (\<lambda>j state. state[cell j i := getSBoxInvert (state ! cell j i)])
       [0..<4] state)
     [0..<4] state"

definition InvShiftRows :: "state_t \<Rightarrow> state_t" where
  "InvShiftRows state =
     (let temp = state ! cell 3 1;
          state = state[cell 3 1 := state ! cell 2 1];
          state = state[cell 2 1 := state ! cell 1 1];
          state = state[cell 1 1 := state ! cell 0 1];
          state = state[cell 0 1 := temp];
          temp = state ! cell 0 2;
          state = state[cell 0 2 := state ! cell 2 2];
          state = state[cell 2 2 := temp];
          temp = state ! cell 1 2;
          state = state[cell 1 2 := state ! cell 3 2];
          state = state[cell 3 2 := temp];
          temp = state ! cell 0 3;
          state = state[cell 0 3 := state ! cell 1 3];
          state = state[cell 1 3 := state ! cell 2 3];
          state = state[cell 2 3 := state ! cell 3 3];
          state = state[cell 3 3 := temp]
      in state)"

section \<open>The cipher\<close>

text \<open>
  \<^verbatim>\<open>round\<close> is a \<^verbatim>\<open>uint8_t\<close>; the loop of \<^verbatim>\<open>Cipher\<close> leaves when \<^verbatim>\<open>round == Nr\<close>.
\<close>

function Cipher_rounds :: "keysize \<Rightarrow> byte \<Rightarrow> state_t \<Rightarrow> byte list \<Rightarrow> hamstate_t \<Rightarrow> error + work" where
  "Cipher_rounds v round state RoundKey pcode =
     (case SubBytes state pcode of
        Inl e \<Rightarrow> Inl e
      | Inr (state, hamstate, pcode) \<Rightarrow>
     (case ShiftRows state pcode of
        Inl e \<Rightarrow> Inl e
      | Inr (state, hamstate, pcode) \<Rightarrow>
          if round = of_nat (Nr v) then Inr (state, hamstate, pcode)
          else
     (case MixColumns state pcode of
        Inl e \<Rightarrow> Inl e
      | Inr (state, hamstate, pcode) \<Rightarrow>
     (case AddRoundKey (unat round) state RoundKey pcode of
        Inl e \<Rightarrow> Inl e
      | Inr (state, hamstate, pcode) \<Rightarrow>
          Cipher_rounds v (round + 1) state RoundKey pcode))))"
  by pat_completeness auto
termination
proof (relation "measure (\<lambda>(v, round, state, RoundKey, pcode). unat (of_nat (Nr v) - round))")
  show "wf (measure (\<lambda>(v, round, state, RoundKey, pcode). unat (of_nat (Nr v) - round)))"
    by simp
next
  fix v :: keysize and round :: byte
  assume "round \<noteq> of_nat (Nr v)"
  then have "(of_nat (Nr v) :: byte) - round \<noteq> 0"
    by simp
  then have "unat ((of_nat (Nr v) :: byte) - round - 1) < unat ((of_nat (Nr v) :: byte) - round)"
    by (simp add: unat_minus_one unat_gt_0)
  moreover have "(of_nat (Nr v) :: byte) - (round + 1) = of_nat (Nr v) - round - 1"
    by simp
  ultimately have "unat ((of_nat (Nr v) :: byte) - (round + 1)) < unat ((of_nat (Nr v) :: byte) - round)"
    by (simp only:)
  then show "\<And>state RoundKey pcode a b. ((v, round + 1, a, RoundKey, b), (v, round, state, RoundKey, pcode))
      \<in> measure (\<lambda>(v, round, state, RoundKey, pcode). unat (of_nat (Nr v) - round))"
    by (simp only: in_measure split_conv)
qed

declare Cipher_rounds.simps [simp del]

definition Cipher :: "keysize \<Rightarrow> state_t \<Rightarrow> byte list \<Rightarrow> error + state_t" where
  "Cipher v state RoundKey =
     (let pcode = encode_state state in
      case AddRoundKey 0 state RoundKey pcode of
        Inl e \<Rightarrow> Inl e
      | Inr (state, hamstate, pcode) \<Rightarrow>
     (case Cipher_rounds v 1 state RoundKey pcode of
        Inl e \<Rightarrow> Inl e
      | Inr (state, hamstate, pcode) \<Rightarrow>
     (case AddRoundKey (Nr v) state RoundKey pcode of
        Inl e \<Rightarrow> Inl e
      | Inr (state, hamstate, pcode) \<Rightarrow> Inr state)))"

text \<open>
  \<^verbatim>\<open>InvCipher\<close> declares \<^verbatim>\<open>hamstate\<close> and \<^verbatim>\<open>pcode\<close> and passes them to
  \<^verbatim>\<open>AddRoundKey\<close> without writing them first.  \<^verbatim>\<open>predictAddKey\<close> reads \<^verbatim>\<open>pcode\<close>,
  so the indeterminate contents of that local are an input of the model.
\<close>

function InvCipher_rounds :: "byte \<Rightarrow> state_t \<Rightarrow> byte list \<Rightarrow> hamstate_t \<Rightarrow> error + work" where
  "InvCipher_rounds round state RoundKey pcode =
     (let state = InvShiftRows state;
          state = InvSubBytes state
      in case AddRoundKey (unat round) state RoundKey pcode of
           Inl e \<Rightarrow> Inl e
         | Inr (state, hamstate, pcode) \<Rightarrow>
             if round = 0 then Inr (state, hamstate, pcode)
             else InvCipher_rounds (round - 1) (InvMixColumns state) RoundKey pcode)"
  by pat_completeness auto
termination
  by (relation "measure (\<lambda>(round, state, RoundKey, pcode). unat round)")
     (simp_all add: unat_minus_one unat_gt_0)

declare InvCipher_rounds.simps [simp del]

definition InvCipher :: "keysize \<Rightarrow> state_t \<Rightarrow> byte list \<Rightarrow> hamstate_t \<Rightarrow> error + state_t" where
  "InvCipher v state RoundKey pcode =
     (case AddRoundKey (Nr v) state RoundKey pcode of
        Inl e \<Rightarrow> Inl e
      | Inr (state, hamstate, pcode) \<Rightarrow>
     (case InvCipher_rounds (of_nat (Nr v - 1)) state RoundKey pcode of
        Inl e \<Rightarrow> Inl e
      | Inr (state, hamstate, pcode) \<Rightarrow> Inr state))"

section \<open>Context and mode drivers\<close>

text \<open>
  Modelled from the spec: \<^verbatim>\<open>struct AES_ctx\<close> is declared in \<^verbatim>\<open>aes.h\<close>.  The context
  bundles the round-key buffer and the 16-byte IV/counter.
\<close>

record AES_ctx =
  RoundKey :: "byte list"
  Iv :: "byte list"

definition AES_init_ctx :: "keysize \<Rightarrow> AES_ctx \<Rightarrow> byte list \<Rightarrow> AES_ctx" where
  "AES_init_ctx v ctx key = ctx\<lparr>RoundKey := KeyExpansion v (RoundKey ctx) key\<rparr>"

definition AES_init_ctx_iv :: "keysize \<Rightarrow> AES_ctx \<Rightarrow> byte list \<Rightarrow> byte list \<Rightarrow> AES_ctx" where
  "AES_init_ctx_iv v ctx key iv =
     ctx\<lparr>RoundKey := KeyExpansion v (RoundKey ctx) key, Iv := take AES_BLOCKLEN iv\<rparr>"

definition AES_ctx_set_iv :: "AES_ctx \<Rightarrow> byte list \<Rightarrow> AES_ctx" where
  "AES_ctx_set_iv ctx iv = ctx\<lparr>Iv := take AES_BLOCKLEN iv\<rparr>"

definition AES_ECB_encrypt :: "keysize \<Rightarrow> AES_ctx \<Rightarrow> byte list \<Rightarrow> error + byte list" where
  "AES_ECB_encrypt v ctx buf = Cipher v buf (RoundKey ctx)"

definition AES_ECB_decrypt :: "keysize \<Rightarrow> AES_ctx \<Rightarrow> hamstate_t \<Rightarrow> byte list \<Rightarrow> error + byte list" where
  "AES_ECB_decrypt v ctx pcode buf = InvCipher v buf (RoundKey ctx) pcode"

text \<open>
  \<^verbatim>\<open>XorWithIv\<close> changes the first 16 bytes of the memory at \<^verbatim>\<open>buf\<close>.
\<close>

definition XorWithIv :: "byte list \<Rightarrow> byte list \<Rightarrow> byte list" where
  "XorWithIv buf iv = fold (\<lambda>i buf. buf[i := buf ! i XOR iv ! i]) [0..<AES_BLOCKLEN] buf"

text \<open>
  The CBC loops advance the pointer \<^verbatim>\<open>buf\<close> by one block per iteration.  In the
  model \<open>buf\<close> is the memory from the pointer on, and the result is that memory
  after the loop.  There is no test of \<^verbatim>\<open>length\<close> other than the loop condition
  \<^verbatim>\<open>i < length\<close>.  The counter \<^verbatim>\<open>i\<close> is a \<^verbatim>\<open>uintptr_t\<close>, \<^verbatim>\<open>length\<close> a \<^verbatim>\<open>uint32_t\<close>;
  the model counts in \<open>nat\<close>.
\<close>

function CBC_encrypt_loop ::
  "keysize \<Rightarrow> byte list \<Rightarrow> nat \<Rightarrow> nat \<Rightarrow> byte list \<Rightarrow> byte list \<Rightarrow> error + byte list \<times> byte list" where
  "CBC_encrypt_loop v rk i len iv buf =
     (if i < len then
        (let buf = XorWithIv buf iv in
         case Cipher v (take AES_BLOCKLEN buf) rk of
           Inl e \<Rightarrow> Inl e
         | Inr block \<Rightarrow>
             (case CBC_encrypt_loop v rk (i + AES_BLOCKLEN) len block (drop AES_BLOCKLEN buf) of
                Inl e \<Rightarrow> Inl e
              | Inr (iv, rest) \<Rightarrow> Inr (iv, block @ rest)))
      else Inr (iv, buf))"
  by pat_completeness auto
termination
  by (relation "measure (\<lambda>(v, rk, i, len, iv, buf). len - i)")
     (simp_all add: AES_BLOCKLEN_def)

declare CBC_encrypt_loop.simps [simp del]

definition AES_CBC_encrypt_buffer ::
  "keysize \<Rightarrow> AES_ctx \<Rightarrow> byte list \<Rightarrow> nat \<Rightarrow> error + AES_ctx \<times> byte list" where
  "AES_CBC_encrypt_buffer v ctx buf len =
     (case CBC_encrypt_loop v (RoundKey ctx) 0 len (Iv ctx) buf of
        Inl e \<Rightarrow> Inl e
      | Inr (iv', buf) \<Rightarrow> Inr (ctx\<lparr>Iv := take AES_BLOCKLEN iv'\<rparr>, buf))"

text \<open>
  Every call of \<^verbatim>\<open>InvCipher\<close> has its own uninitialised \<^verbatim>\<open>pcode\<close>: \<open>garbage i\<close> is
  what the call at loop counter \<open>i\<close> finds there.
\<close>

function CBC_decrypt_loop ::
  "keysize \<Rightarrow> byte list \<Rightarrow> (nat \<Rightarrow> hamstate_t) \<Rightarrow> nat \<Rightarrow> nat \<Rightarrow> byte list \<Rightarrow> byte list \<Rightarrow>
   error + byte list \<times> byte list" where
  "CBC_decrypt_loop v rk garbage i len iv buf =
     (if i < len then
        (let storeNextIv = take AES_BLOCKLEN buf in
         case InvCipher v (take AES_BLOCKLEN buf) rk (garbage i) of
           Inl e \<Rightarrow> Inl e
         | Inr block \<Rightarrow>
             (let buf = XorWithIv (block @ drop AES_BLOCKLEN buf) iv;
                  iv = storeNextIv
              in case CBC_decrypt_loop v rk garbage (i + AES_BLOCKLEN) len iv
                        (drop AES_BLOCKLEN buf) of
                   Inl e \<Rightarrow> Inl e
                 | Inr (iv, rest) \<Rightarrow> Inr (iv, take AES_BLOCKLEN buf @ rest)))
      else Inr (iv, buf))"
  by pat_completeness auto
termination
  by (relation "measure (\<lambda>(v, rk, garbage, i, len, iv, buf). len - i)")
     (simp_all add: AES_BLOCKLEN_def)

declare CBC_decrypt_loop.simps [simp del]

definition AES_CBC_decrypt_buffer ::
  "keysize \<Rightarrow> AES_ctx \<Rightarrow> (nat \<Rightarrow> hamstate_t) \<Rightarrow> byte list \<Rightarrow> nat \<Rightarrow> error + AES_ctx \<times> byte list" where
  "AES_CBC_decrypt_buffer v ctx garbage buf len =
     (case CBC_decrypt_loop v (RoundKey ctx) garbage 0 len (Iv ctx) buf of
        Inl e \<Rightarrow> Inl e
      | Inr (iv', buf) \<Rightarrow> Inr (ctx\<lparr>Iv := iv'\<rparr>, buf))"

text \<open>
  The counter increment of CTR mode: \<^verbatim>\<open>bi\<close> is an \<^verbatim>\<open>int\<close> running from 15 down.
\<close>

function increment_Iv :: "int \<Rightarrow> byte list \<Rightarrow> byte list" where
  "increment_Iv bi iv =
     (if bi \<ge> 0 then
        (if iv ! nat bi = 255 then increment_Iv (bi - 1) (iv[nat bi := 0])
         else iv[nat bi := iv ! nat bi + 1])
      else iv)"
  by pat_completeness auto
termination
  by (relation "measure (\<lambda>(bi, iv). nat (bi + 1))") simp_all

declare increment_Iv.simps [simp del]

text \<open>
  \<^verbatim>\<open>buffer\<close> holds the current keystream block.  It is uninitialised on entry,
  but \<^verbatim>\<open>bi\<close> starts at \<^verbatim>\<open>AES_BLOCKLEN\<close>, so it is filled before it is first read.
\<close>

function CTR_loop ::
  "keysize \<Rightarrow> byte list \<Rightarrow> nat \<Rightarrow> nat \<Rightarrow> nat \<Rightarrow> byte list \<Rightarrow> byte list \<Rightarrow> byte list \<Rightarrow>
   error + byte list \<times> byte list" where
  "CTR_loop v rk i len bi buffer iv buf =
     (if i < len then
        (if bi = AES_BLOCKLEN then
           (case Cipher v (take AES_BLOCKLEN iv) rk of
              Inl e \<Rightarrow> Inl e
            | Inr buffer \<Rightarrow>
                (let iv = increment_Iv (int AES_BLOCKLEN - 1) iv;
                     bi = 0;
                     buf = buf[i := buf ! i XOR buffer ! bi]
                 in CTR_loop v rk (i + 1) len (bi + 1) buffer iv buf))
         else
           (let buf = buf[i := buf ! i XOR buffer ! bi]
            in CTR_loop v rk (i + 1) len (bi + 1) buffer iv buf))
      else Inr (iv, buf))"
  by pat_completeness auto
termination
  by (relation "measure (\<lambda>(v, rk, i, len, bi, buffer, iv, buf). len - i)") simp_all

declare CTR_loop.simps [simp del]

definition AES_CTR_xcrypt_buffer ::
  "keysize \<Rightarrow> AES_ctx \<Rightarrow> byte list \<Rightarrow> nat \<Rightarrow> error + AES_ctx \<times> byte list" where
  "AES_CTR_xcrypt_buffer v ctx buf len =
     (case CTR_loop v (RoundKey ctx) 0 len AES_BLOCKLEN [] (Iv ctx) buf of
        Inl e \<Rightarrow> Inl e
      | Inr (iv', buf) \<Rightarrow> Inr (ctx\<lparr>Iv := iv'\<rparr>, buf))"

section \<open>Reference definitions\<close>

text \<open>
  The round transforms as a textbook states them: AddRoundKey XORs the 16
  round-key bytes at offset \<open>16 * round\<close> into the state, SubBytes replaces each
  byte by its S-box image, ShiftRows rotates row \<open>r\<close> left by \<open>r\<close> columns, and
  MixColumns multiplies each column by the fixed matrix in the field.  The
  cipher is AddRoundKey 0, then \<open>Nr - 1\<close> full rounds, then a last round without
  MixColumns.
\<close>

definition textbook_AddRoundKey :: "nat \<Rightarrow> state_t \<Rightarrow> byte list \<Rightarrow> state_t" where
  "textbook_AddRoundKey round s rk = map (\<lambda>k. s ! k XOR rk ! (16 * round + k)) [0..<16]"

definition textbook_SubBytes :: "state_t \<Rightarrow> state_t" where
  "textbook_SubBytes s = map (\<lambda>b. sbox ! unat b) s"

definition textbook_ShiftRows :: "state_t \<Rightarrow> state_t" where
  "textbook_ShiftRows s =
     concat (map (\<lambda>c. map (\<lambda>r. s ! cell ((c + r) mod 4) r) [0..<4]) [0..<4])"

definition mix_matrix :: "byte list list" where
  "mix_matrix = [[0x02, 0x03, 0x01, 0x01],
                 [0x01, 0x02, 0x03, 0x01],
                 [0x01, 0x01, 0x02, 0x03],
                 [0x03, 0x01, 0x01, 0x02]]"

definition textbook_MixColumns :: "state_t \<Rightarrow> state_t" where
  "textbook_MixColumns s =
     concat (map (\<lambda>c. map (\<lambda>r.
         Multiply (s ! cell c 0) (mix_matrix ! r ! 0) XOR
         Multiply (s ! cell c 1) (mix_matrix ! r ! 1) XOR
         Multiply (s ! cell c 2) (mix_matrix ! r ! 2) XOR
         Multiply (s ! cell c 3) (mix_matrix ! r ! 3)) [0..<4]) [0..<4])"

definition textbook_round :: "byte list \<Rightarrow> nat \<Rightarrow> state_t \<Rightarrow> state_t" where
  "textbook_round rk round s =
     textbook_AddRoundKey round
       (textbook_MixColumns (textbook_ShiftRows (textbook_SubBytes s))) rk"

definition textbook_cipher :: "keysize \<Rightarrow> state_t \<Rightarrow> byte list \<Rightarrow> state_t" where
  "textbook_cipher v s rk =
     (let s = textbook_AddRoundKey 0 s rk;
          s = fold (textbook_round rk) [1..<Nr v] s
      in textbook_AddRoundKey (Nr v) (textbook_ShiftRows (textbook_SubBytes s)) rk)"

text \<open>
  The corrector as the specification words it: the syndrome positions are the
  first two of 3, 2, 1, 0 at which the bit of \<open>diff\<close> is 0 (\<open>-1\<close> when there is
  none), and a table maps the pair to the data bit to flip.
\<close>

definition spec_positions :: "byte \<Rightarrow> int \<times> int" where
  "spec_positions diff =
     (case filter (\<lambda>x. \<not> bit diff (nat x)) [3, 2, 1, 0] of
        [] \<Rightarrow> (-1, -1)
      | [pone] \<Rightarrow> (pone, -1)
      | pone # ptwo # rest \<Rightarrow> (pone, ptwo))"

definition spec_flip_table :: "((int \<times> int) \<times> nat) list" where
  "spec_flip_table =
     [((3, 2), 0), ((3, 1), 2), ((3, 0), 5), ((2, 1), 3),
      ((2, 0), 6), ((1, 0), 7), ((1, -1), 1), ((0, -1), 4)]"

text \<open>
  The key schedule in words: the first \<open>Nk\<close> words are the key; word \<open>i\<close> is word
  \<open>i - Nk\<close> XOR a word made from word \<open>i - 1\<close>, which for \<open>i mod Nk = 0\<close> is rotated
  left by one byte, sent through the S-box and has \<open>Rcon[i / Nk]\<close> XORed into its
  first byte, and for AES-256 and \<open>i mod Nk = 4\<close> is sent through the S-box.  The
  schedule is built with the latest byte first, and reversed at the end.
\<close>

definition textbook_next_word :: "keysize \<Rightarrow> nat \<Rightarrow> byte list \<Rightarrow> byte list \<Rightarrow> byte list" where
  "textbook_next_word v i prev back =
     (let tempa = prev;
          tempa =
            (if i mod Nk v = 0 then
               (let t = map (\<lambda>b. sbox ! unat b) (rotate 1 tempa)
                in t[0 := t ! 0 XOR Rcon ! (i div Nk v)])
             else tempa);
          tempa =
            (if v = AES256 \<and> i mod Nk v = 4 then map (\<lambda>b. sbox ! unat b) tempa else tempa)
      in map2 (\<lambda>x y. x XOR y) back tempa)"

definition textbook_schedule_rev :: "keysize \<Rightarrow> byte list \<Rightarrow> byte list" where
  "textbook_schedule_rev v key =
     fold (\<lambda>i q. rev (textbook_next_word v i (rev (take 4 q))
                        (rev (take 4 (drop (4 * (Nk v - 1)) q)))) @ q)
       [Nk v..<Nb * (Nr v + 1)] (rev (take (4 * Nk v) key))"

definition textbook_schedule :: "keysize \<Rightarrow> byte list \<Rightarrow> byte list" where
  "textbook_schedule v key = rev (textbook_schedule_rev v key)"

text \<open>
  \<open>table_at T k xs\<close> says that \<open>xs\<close> are the entries of the table \<open>T\<close> from index \<open>k\<close> on.
\<close>

fun table_at :: "'a list \<Rightarrow> int \<Rightarrow> 'a list \<Rightarrow> bool" where
  "table_at T k [] = True"
| "table_at T k (x # xs) = (T ! nat k = x \<and> table_at T (k + 1) xs)"

section \<open>Test vectors\<close>

text \<open>
  The ECB-AES128 vectors of NIST SP 800-38A, as the header comment of \<^verbatim>\<open>aes.c\<close>
  lists them.
\<close>

definition nist_key :: "byte list" where
  "nist_key =
     [0x2b, 0x7e, 0x15, 0x16, 0x28, 0xae, 0xd2, 0xa6, 0xab, 0xf7, 0x15, 0x88, 0x09, 0xcf, 0x4f, 0x3c]"

definition nist_plain1 :: "byte list" where
  "nist_plain1 =
     [0x6b, 0xc1, 0xbe, 0xe2, 0x2e, 0x40, 0x9f, 0x96, 0xe9, 0x3d, 0x7e, 0x11, 0x73, 0x93, 0x17, 0x2a]"

definition nist_cipher1 :: "byte list" where
  "nist_cipher1 =
     [0x3a, 0xd7, 0x7b, 0xb4, 0x0d, 0x7a, 0x36, 0x60, 0xa8, 0x9e, 0xca, 0xf3, 0x24, 0x66, 0xef, 0x97]"

definition nist_plain2 :: "byte list" where
  "nist_plain2 =
     [0xae, 0x2d, 0x8a, 0x57, 0x1e, 0x03, 0xac, 0x9c, 0x9e, 0xb7, 0x6f, 0xac, 0x45, 0xaf, 0x8e, 0x51]"

definition nist_cipher2 :: "byte list" where
  "nist_cipher2 =
     [0xf5, 0xd3, 0xd5, 0x85, 0x03, 0xb9, 0x69, 0x9d, 0xe7, 0x85, 0x89, 0x5a, 0x96, 0xfd, 0xba, 0xaf]"

definition nist_plain3 :: "byte list" where
  "nist_plain3 =
     [0x30, 0xc8, 0x1c, 0x46, 0xa3, 0x5c, 0xe4, 0x11, 0xe5, 0xfb, 0xc1, 0x19, 0x1a, 0x0a, 0x52, 0xef]"

definition nist_cipher3 :: "byte list" where
  "nist_cipher3 =
     [0x43, 0xb1, 0xcd, 0x7f, 0x59, 0x8e, 0xce, 0x23, 0x88, 0x1b, 0x00, 0xe3, 0xed, 0x03, 0x06, 0x88]"

definition nist_plain4 :: "byte list" where
  "nist_plain4 =
     [0xf6, 0x9f, 0x24, 0x45, 0xdf, 0x4f, 0x9b, 0x17, 0xad, 0x2b, 0x41, 0x7b, 0xe6, 0x6c, 0x37, 0x10]"

definition nist_cipher4 :: "byte list" where
  "nist_cipher4 =
     [0x7b, 0x0c, 0x78, 0x5e, 0x27, 0xe8, 0xad, 0x3f, 0x82, 0x23, 0x20, 0x71, 0x04, 0x72, 0x5d, 0xd4]"

text \<open>The expansion of that key (FIPS-197, appendix A.1): eleven round keys.\<close>

definition nist_round_keys :: "byte list" where
  "nist_round_keys =
    [0x2b, 0x7e, 0x15, 0x16, 0x28, 0xae, 0xd2, 0xa6, 0xab, 0xf7, 0x15, 0x88, 0x09, 0xcf, 0x4f, 0x3c,
     0xa0, 0xfa, 0xfe, 0x17, 0x88, 0x54, 0x2c, 0xb1, 0x23, 0xa3, 0x39, 0x39, 0x2a, 0x6c, 0x76, 0x05,
     0xf2, 0xc2, 0x95, 0xf2, 0x7a, 0x96, 0xb9, 0x43, 0x59, 0x35, 0x80, 0x7a, 0x73, 0x59, 0xf6, 0x7f,
     0x3d, 0x80, 0x47, 0x7d, 0x47, 0x16, 0xfe, 0x3e, 0x1e, 0x23, 0x7e, 0x44, 0x6d, 0x7a, 0x88, 0x3b,
     0xef, 0x44, 0xa5, 0x41, 0xa8, 0x52, 0x5b, 0x7f, 0xb6, 0x71, 0x25, 0x3b, 0xdb, 0x0b, 0xad, 0x00,
     0xd4, 0xd1, 0xc6, 0xf8, 0x7c, 0x83, 0x9d, 0x87, 0xca, 0xf2, 0xb8, 0xbc, 0x11, 0xf9, 0x15, 0xbc,
     0x6d, 0x88, 0xa3, 0x7a, 0x11, 0x0b, 0x3e, 0xfd, 0xdb, 0xf9, 0x86, 0x41, 0xca, 0x00, 0x93, 0xfd,
     0x4e, 0x54, 0xf7, 0x0e, 0x5f, 0x5f, 0xc9, 0xf3, 0x84, 0xa6, 0x4f, 0xb2, 0x4e, 0xa6, 0xdc, 0x4f,
     0xea, 0xd2, 0x73, 0x21, 0xb5, 0x8d, 0xba, 0xd2, 0x31, 0x2b, 0xf5, 0x60, 0x7f, 0x8d, 0x29, 0x2f,
     0xac, 0x77, 0x66, 0xf3, 0x19, 0xfa, 0xdc, 0x21, 0x28, 0xd1, 0x29, 0x41, 0x57, 0x5c, 0x00, 0x6e,
     0xd0, 0x14, 0xf9, 0xa8, 0xc9, 0xee, 0x25, 0x89, 0xe1, 0x3f, 0x0c, 0xc8, 0xb6, 0x63, 0x0c, 0xa6]"

section \<open>Basic facts about lists and indices\<close>

lemma list_update_Cons_numeral:
  "(x # xs)[numeral n := v] = x # xs[pred_numeral n := v]"
  by (simp add: numeral_eq_Suc)

lemma upt_0_4: "[0..<4] = [0, 1, 2, 3]"
  by (simp add: upt_rec)

lemma upt_0_16: "[0..<16] = [0, 1, 2, 3, 4, 5, 6, 7, 8, 9, 10, 11, 12, 13, 14, 15]"
  by (simp add: upt_rec)

lemma list16:
  assumes "length (st :: 'a list) = 16"
  shows "st = [st ! 0, st ! 1, st ! 2, st ! 3, st ! 4, st ! 5, st ! 6, st ! 7,
               st ! 8, st ! 9, st ! 10, st ! 11, st ! 12, st ! 13, st ! 14, st ! 15]"
proof -
  have "map (nth st) [0..<16] = st"
    using assms map_nth [of st] by simp
  then have "st = map (nth st) [0..<16]"
    by simp
  then show ?thesis
    unfolding upt_0_16 by simp
qed

lemma list16_cases:
  assumes "length (st :: 'a list) = 16"
  obtains a0 a1 a2 a3 a4 a5 a6 a7 a8 a9 a10 a11 a12 a13 a14 a15 where
    "st = [a0, a1, a2, a3, a4, a5, a6, a7, a8, a9, a10, a11, a12, a13, a14, a15]"
  using list16 [OF assms] by blast

section \<open>The Hamming code\<close>

lemma bit_get_bit: "bit (get_bit b k) n \<longleftrightarrow> n = 0 \<and> bit b k"
  by (auto simp add: get_bit_def bit_simps)

lemma bit_hamming_encode:
  "bit (hamming_encode b) n \<longleftrightarrow>
     (n = 0 \<and> (bit b 3 \<noteq> (bit b 2 \<noteq> (bit b 1 \<noteq> bit b 0)))) \<or>
     (n = 1 \<and> (bit b 6 \<noteq> (bit b 5 \<noteq> (bit b 4 \<noteq> bit b 0)))) \<or>
     (n = 2 \<and> (bit b 7 \<noteq> (bit b 5 \<noteq> (bit b 4 \<noteq> (bit b 2 \<noteq> bit b 1))))) \<or>
     (n = 3 \<and> (bit b 7 \<noteq> (bit b 6 \<noteq> (bit b 4 \<noteq> (bit b 3 \<noteq> bit b 1)))))"
  unfolding hamming_encode_def Let_def
  apply (simp only: bit_or_iff bit_xor_iff bit_push_bit_iff bit_get_bit)
  apply (cases "n = 0"; cases "n = 1"; cases "n = 2"; cases "n = 3"; simp)
  done

text \<open>
  C7.  For every byte \<open>b\<close> the code has \<open>p0 = b3 XOR b2 XOR b1 XOR b0\<close> in bit 0,
  \<open>p1 = b6 XOR b5 XOR b4 XOR b0\<close> in bit 1, \<open>p2 = b7 XOR b5 XOR b4 XOR b2 XOR b1\<close> in
  bit 2 and \<open>p3 = b7 XOR b6 XOR b4 XOR b3 XOR b1\<close> in bit 3, and nothing above the low
  nibble.  The exclusive or of two truth values is written \<open>\<noteq>\<close>.
\<close>

theorem hamming_encode_parities:
  "(bit (hamming_encode b) 0 \<longleftrightarrow> (bit b 3 \<noteq> (bit b 2 \<noteq> (bit b 1 \<noteq> bit b 0)))) \<and>
   (bit (hamming_encode b) 1 \<longleftrightarrow> (bit b 6 \<noteq> (bit b 5 \<noteq> (bit b 4 \<noteq> bit b 0)))) \<and>
   (bit (hamming_encode b) 2 \<longleftrightarrow> (bit b 7 \<noteq> (bit b 5 \<noteq> (bit b 4 \<noteq> (bit b 2 \<noteq> bit b 1))))) \<and>
   (bit (hamming_encode b) 3 \<longleftrightarrow> (bit b 7 \<noteq> (bit b 6 \<noteq> (bit b 4 \<noteq> (bit b 3 \<noteq> bit b 1))))) \<and>
   drop_bit 4 (hamming_encode b) = 0"
proof -
  have "drop_bit 4 (hamming_encode b) = 0"
    by (rule bit_eqI) (simp add: bit_drop_bit_eq bit_hamming_encode)
  then show ?thesis
    by (simp add: bit_hamming_encode)
qed

lemma hamming_encode_xor:
  "hamming_encode (a XOR b) = hamming_encode a XOR hamming_encode b"
proof (rule bit_eqI)
  fix n :: nat
  consider "n = 0" | "n = 1" | "n = 2" | "n = 3" | "n \<noteq> 0 \<and> n \<noteq> 1 \<and> n \<noteq> 2 \<and> n \<noteq> 3"
    by blast
  then show "bit (hamming_encode (a XOR b)) n = bit (hamming_encode a XOR hamming_encode b) n"
  proof cases
    case 1
    then show ?thesis by (simp add: bit_hamming_encode bit_xor_iff) blast
  next
    case 2
    then show ?thesis by (simp add: bit_hamming_encode bit_xor_iff) blast
  next
    case 3
    then show ?thesis by (simp add: bit_hamming_encode bit_xor_iff) blast
  next
    case 4
    then show ?thesis by (simp add: bit_hamming_encode bit_xor_iff) blast
  next
    case 5
    then show ?thesis by (simp add: bit_hamming_encode bit_xor_iff)
  qed
qed

lemma h_rd_table: "h_rd = map hamming_encode sbox"
  by (simp add: h_rd_def sbox_def hamming_encode_def get_bit_def)

lemma length_sbox: "length sbox = 256"
  by (simp add: sbox_def)

lemma getHBoxValue_eq: "getHBoxValue b = hamming_encode (getSBoxValue b)"
proof -
  have "unat b < length sbox"
    using unsigned_less [of b] by (simp add: length_sbox)
  then show ?thesis
    by (simp add: getHBoxValue_def getSBoxValue_def h_rd_table)
qed

section \<open>Field arithmetic\<close>

lemma top_bit_factor: "(drop_bit 7 x AND 1) * (c :: byte) = (if bit x 7 then c else 0)"
proof -
  have "drop_bit 7 x AND 1 = (if bit x 7 then 1 else (0 :: byte))"
  proof (rule bit_eqI)
    fix n :: nat
    show "bit (drop_bit 7 x AND 1) n = bit (if bit x 7 then 1 else (0 :: byte)) n"
      by (cases "n = 0") (simp_all add: bit_simps)
  qed
  then show ?thesis
    by simp
qed

lemma xtime_if: "xtime x = push_bit 1 x XOR (if bit x 7 then 0x1b else 0)"
  by (simp only: xtime_def top_bit_factor)

lemma xtime_xor: "xtime (a XOR b) = xtime a XOR xtime b"
  by (cases "bit a 7"; cases "bit b 7")
     (simp_all only: xtime_if bit_xor_iff push_bit_xor, simp_all add: ac_simps)

lemma Multiply_1: "Multiply x 0x01 = x"
  by (simp add: Multiply_def)

lemma Multiply_2: "Multiply x 0x02 = xtime x"
  by (simp add: Multiply_def)

lemma Multiply_3: "Multiply x 0x03 = x XOR xtime x"
  by (simp add: Multiply_def)

section \<open>The transforms on an explicit state\<close>

text \<open>
  On a state written out as 16 bytes every loop of the transforms unrolls.
\<close>

lemmas unroll = cell_def Nb_def upt_0_4 list_update_Cons_numeral

lemma encode_state_explicit:
  "encode_state [a0, a1, a2, a3,
     a4, a5, a6, a7,
     a8, a9, a10, a11,
     a12, a13, a14, a15] =
   [hamming_encode a0, hamming_encode a1, hamming_encode a2, hamming_encode a3,
     hamming_encode a4, hamming_encode a5, hamming_encode a6, hamming_encode a7,
     hamming_encode a8, hamming_encode a9, hamming_encode a10, hamming_encode a11,
     hamming_encode a12, hamming_encode a13, hamming_encode a14, hamming_encode a15]"
  by (simp add: encode_state_def unroll)

lemma AddRoundKey_state_explicit:
  "AddRoundKey_state round [a0, a1, a2, a3,
     a4, a5, a6, a7,
     a8, a9, a10, a11,
     a12, a13, a14, a15] rk =
   [a0 XOR rk ! (16 * round + 0),
     a1 XOR rk ! (16 * round + 1),
     a2 XOR rk ! (16 * round + 2),
     a3 XOR rk ! (16 * round + 3),
     a4 XOR rk ! (16 * round + 4),
     a5 XOR rk ! (16 * round + 5),
     a6 XOR rk ! (16 * round + 6),
     a7 XOR rk ! (16 * round + 7),
     a8 XOR rk ! (16 * round + 8),
     a9 XOR rk ! (16 * round + 9),
     a10 XOR rk ! (16 * round + 10),
     a11 XOR rk ! (16 * round + 11),
     a12 XOR rk ! (16 * round + 12),
     a13 XOR rk ! (16 * round + 13),
     a14 XOR rk ! (16 * round + 14),
     a15 XOR rk ! (16 * round + 15)]"
  by (simp add: AddRoundKey_state_def unroll mult.commute add.commute)

lemma predictAddKey_explicit:
  "predictAddKey round state rk [p0, p1, p2, p3,
     p4, p5, p6, p7,
     p8, p9, p10, p11,
     p12, p13, p14, p15] =
   [p0 XOR hamming_encode (rk ! (16 * round + 0)),
     p1 XOR hamming_encode (rk ! (16 * round + 1)),
     p2 XOR hamming_encode (rk ! (16 * round + 2)),
     p3 XOR hamming_encode (rk ! (16 * round + 3)),
     p4 XOR hamming_encode (rk ! (16 * round + 4)),
     p5 XOR hamming_encode (rk ! (16 * round + 5)),
     p6 XOR hamming_encode (rk ! (16 * round + 6)),
     p7 XOR hamming_encode (rk ! (16 * round + 7)),
     p8 XOR hamming_encode (rk ! (16 * round + 8)),
     p9 XOR hamming_encode (rk ! (16 * round + 9)),
     p10 XOR hamming_encode (rk ! (16 * round + 10)),
     p11 XOR hamming_encode (rk ! (16 * round + 11)),
     p12 XOR hamming_encode (rk ! (16 * round + 12)),
     p13 XOR hamming_encode (rk ! (16 * round + 13)),
     p14 XOR hamming_encode (rk ! (16 * round + 14)),
     p15 XOR hamming_encode (rk ! (16 * round + 15))]"
  by (simp add: predictAddKey_def unroll mult.commute add.commute)

lemma SubBytes_state_explicit:
  "SubBytes_state [a0, a1, a2, a3,
     a4, a5, a6, a7,
     a8, a9, a10, a11,
     a12, a13, a14, a15] =
   [getSBoxValue a0, getSBoxValue a1, getSBoxValue a2, getSBoxValue a3,
     getSBoxValue a4, getSBoxValue a5, getSBoxValue a6, getSBoxValue a7,
     getSBoxValue a8, getSBoxValue a9, getSBoxValue a10, getSBoxValue a11,
     getSBoxValue a12, getSBoxValue a13, getSBoxValue a14, getSBoxValue a15]"
  by (simp add: SubBytes_state_def unroll)

lemma predictSub_explicit:
  "predictSub [a0, a1, a2, a3,
     a4, a5, a6, a7,
     a8, a9, a10, a11,
     a12, a13, a14, a15] [p0, p1, p2, p3,
     p4, p5, p6, p7,
     p8, p9, p10, p11,
     p12, p13, p14, p15] =
   [getHBoxValue a0, getHBoxValue a1, getHBoxValue a2, getHBoxValue a3,
     getHBoxValue a4, getHBoxValue a5, getHBoxValue a6, getHBoxValue a7,
     getHBoxValue a8, getHBoxValue a9, getHBoxValue a10, getHBoxValue a11,
     getHBoxValue a12, getHBoxValue a13, getHBoxValue a14, getHBoxValue a15]"
  by (simp add: predictSub_def unroll)

lemma ShiftRows_state_explicit:
  "ShiftRows_state [a0, a1, a2, a3,
     a4, a5, a6, a7,
     a8, a9, a10, a11,
     a12, a13, a14, a15] =
   [a0, a5, a10, a15,
     a4, a9, a14, a3,
     a8, a13, a2, a7,
     a12, a1, a6, a11]"
  by (simp add: ShiftRows_state_def unroll)

lemma predictShift_explicit:
  "predictShift [p0, p1, p2, p3,
     p4, p5, p6, p7,
     p8, p9, p10, p11,
     p12, p13, p14, p15] =
   [p0, p5, p10, p15,
     p4, p9, p14, p3,
     p8, p13, p2, p7,
     p12, p1, p6, p11]"
  by (simp add: predictShift_def unroll)

lemma xor_cancel: "a XOR (a XOR b) = (b :: byte)"
  by (simp add: xor.assoc [symmetric])

lemma MixColumns_state_explicit:
  "MixColumns_state [a0, a1, a2, a3,
     a4, a5, a6, a7,
     a8, a9, a10, a11,
     a12, a13, a14, a15] =
   [xtime a0 XOR (a1 XOR xtime a1) XOR a2 XOR a3,
     a0 XOR xtime a1 XOR (a2 XOR xtime a2) XOR a3,
     a0 XOR a1 XOR xtime a2 XOR (a3 XOR xtime a3),
     (a0 XOR xtime a0) XOR a1 XOR a2 XOR xtime a3,
     xtime a4 XOR (a5 XOR xtime a5) XOR a6 XOR a7,
     a4 XOR xtime a5 XOR (a6 XOR xtime a6) XOR a7,
     a4 XOR a5 XOR xtime a6 XOR (a7 XOR xtime a7),
     (a4 XOR xtime a4) XOR a5 XOR a6 XOR xtime a7,
     xtime a8 XOR (a9 XOR xtime a9) XOR a10 XOR a11,
     a8 XOR xtime a9 XOR (a10 XOR xtime a10) XOR a11,
     a8 XOR a9 XOR xtime a10 XOR (a11 XOR xtime a11),
     (a8 XOR xtime a8) XOR a9 XOR a10 XOR xtime a11,
     xtime a12 XOR (a13 XOR xtime a13) XOR a14 XOR a15,
     a12 XOR xtime a13 XOR (a14 XOR xtime a14) XOR a15,
     a12 XOR a13 XOR xtime a14 XOR (a15 XOR xtime a15),
     (a12 XOR xtime a12) XOR a13 XOR a14 XOR xtime a15]"
  by (simp add: MixColumns_state_def unroll xtime_xor xor_cancel ac_simps)

lemma predictMixCols_explicit:
  "predictMixCols [a0, a1, a2, a3,
     a4, a5, a6, a7,
     a8, a9, a10, a11,
     a12, a13, a14, a15] [p0, p1, p2, p3,
     p4, p5, p6, p7,
     p8, p9, p10, p11,
     p12, p13, p14, p15] =
   [hamming_encode (xtime a0 XOR (a1 XOR xtime a1) XOR a2 XOR a3),
     hamming_encode (a0 XOR xtime a1 XOR (a2 XOR xtime a2) XOR a3),
     hamming_encode (a0 XOR a1 XOR xtime a2 XOR (a3 XOR xtime a3)),
     hamming_encode ((a0 XOR xtime a0) XOR a1 XOR a2 XOR xtime a3),
     hamming_encode (xtime a4 XOR (a5 XOR xtime a5) XOR a6 XOR a7),
     hamming_encode (a4 XOR xtime a5 XOR (a6 XOR xtime a6) XOR a7),
     hamming_encode (a4 XOR a5 XOR xtime a6 XOR (a7 XOR xtime a7)),
     hamming_encode ((a4 XOR xtime a4) XOR a5 XOR a6 XOR xtime a7),
     hamming_encode (xtime a8 XOR (a9 XOR xtime a9) XOR a10 XOR a11),
     hamming_encode (a8 XOR xtime a9 XOR (a10 XOR xtime a10) XOR a11),
     hamming_encode (a8 XOR a9 XOR xtime a10 XOR (a11 XOR xtime a11)),
     hamming_encode ((a8 XOR xtime a8) XOR a9 XOR a10 XOR xtime a11),
     hamming_encode (xtime a12 XOR (a13 XOR xtime a13) XOR a14 XOR a15),
     hamming_encode (a12 XOR xtime a13 XOR (a14 XOR xtime a14) XOR a15),
     hamming_encode (a12 XOR a13 XOR xtime a14 XOR (a15 XOR xtime a15)),
     hamming_encode ((a12 XOR xtime a12) XOR a13 XOR a14 XOR xtime a15)]"
  by (simp add: predictMixCols_def unroll Multiply_3 hamming_encode_xor xtime_xor
      xor_cancel ac_simps)

section \<open>Predictors against the transforms\<close>

lemma length_encode_state: "length (encode_state st) = 16"
  by (simp add: encode_state_def upt_0_4)

lemma predictAddKey_encode:
  assumes "length st = 16"
  shows "predictAddKey round st rk (encode_state st) = encode_state (AddRoundKey_state round st rk)"
proof -
  obtain a0 a1 a2 a3 a4 a5 a6 a7 a8 a9 a10 a11 a12 a13 a14 a15 where
    "st = [a0, a1, a2, a3, a4, a5, a6, a7, a8, a9, a10, a11, a12, a13, a14, a15]"
    using assms by (rule list16_cases)
  then show ?thesis
    by (simp add: encode_state_explicit AddRoundKey_state_explicit predictAddKey_explicit
        hamming_encode_xor)
qed

lemma predictSub_encode:
  assumes "length st = 16" and "length pc = 16"
  shows "predictSub st pc = encode_state (SubBytes_state st)"
proof -
  obtain a0 a1 a2 a3 a4 a5 a6 a7 a8 a9 a10 a11 a12 a13 a14 a15 where
    st: "st = [a0, a1, a2, a3, a4, a5, a6, a7, a8, a9, a10, a11, a12, a13, a14, a15]"
    using assms(1) by (rule list16_cases)
  obtain p0 p1 p2 p3 p4 p5 p6 p7 p8 p9 p10 p11 p12 p13 p14 p15 where
    pc: "pc = [p0, p1, p2, p3, p4, p5, p6, p7, p8, p9, p10, p11, p12, p13, p14, p15]"
    using assms(2) by (rule list16_cases)
  show ?thesis
    unfolding st pc
    by (simp add: encode_state_explicit SubBytes_state_explicit predictSub_explicit
        getHBoxValue_eq)
qed

lemma predictShift_encode:
  assumes "length st = 16"
  shows "predictShift (encode_state st) = encode_state (ShiftRows_state st)"
proof -
  obtain a0 a1 a2 a3 a4 a5 a6 a7 a8 a9 a10 a11 a12 a13 a14 a15 where
    "st = [a0, a1, a2, a3, a4, a5, a6, a7, a8, a9, a10, a11, a12, a13, a14, a15]"
    using assms by (rule list16_cases)
  then show ?thesis
    by (simp add: encode_state_explicit ShiftRows_state_explicit predictShift_explicit)
qed

lemma predictMixCols_encode:
  assumes "length st = 16" and "length pc = 16"
  shows "predictMixCols st pc = encode_state (MixColumns_state st)"
proof -
  obtain a0 a1 a2 a3 a4 a5 a6 a7 a8 a9 a10 a11 a12 a13 a14 a15 where
    st: "st = [a0, a1, a2, a3, a4, a5, a6, a7, a8, a9, a10, a11, a12, a13, a14, a15]"
    using assms(1) by (rule list16_cases)
  obtain p0 p1 p2 p3 p4 p5 p6 p7 p8 p9 p10 p11 p12 p13 p14 p15 where
    pc: "pc = [p0, p1, p2, p3, p4, p5, p6, p7, p8, p9, p10, p11, p12, p13, p14, p15]"
    using assms(2) by (rule list16_cases)
  show ?thesis
    unfolding st pc
    by (simp only: encode_state_explicit MixColumns_state_explicit predictMixCols_explicit)
qed

text \<open>
  C3.  For every 16-byte state \<open>S\<close>, every round-key buffer and every round
  number, the Hamming encoding of \<open>T(S)\<close> is what the predictor of \<open>T\<close> makes of
  the Hamming encoding of \<open>S\<close>, for each of AddRoundKey, SubBytes, ShiftRows and
  MixColumns.
\<close>

theorem hamming_invariant:
  assumes "length S = 16"
  shows "encode_state (AddRoundKey_state round S rk) = predictAddKey round S rk (encode_state S) \<and>
         encode_state (SubBytes_state S) = predictSub S (encode_state S) \<and>
         encode_state (ShiftRows_state S) = predictShift (encode_state S) \<and>
         encode_state (MixColumns_state S) = predictMixCols S (encode_state S)"
  using assms
  by (simp add: predictAddKey_encode predictSub_encode predictShift_encode
      predictMixCols_encode length_encode_state)

lemma length_nist_plain1: "length nist_plain1 = 16"
  by (simp add: nist_plain1_def)

theorem hamming_invariant_witness:
  "length nist_plain1 = 16 \<and>
   encode_state (AddRoundKey_state 0 nist_plain1 nist_key) =
     predictAddKey 0 nist_plain1 nist_key (encode_state nist_plain1) \<and>
   encode_state (SubBytes_state nist_plain1) = predictSub nist_plain1 (encode_state nist_plain1) \<and>
   encode_state (ShiftRows_state nist_plain1) = predictShift (encode_state nist_plain1) \<and>
   encode_state (MixColumns_state nist_plain1) = predictMixCols nist_plain1 (encode_state nist_plain1)"
  using length_nist_plain1 hamming_invariant [OF length_nist_plain1, of 0 nist_key]
  by (rule conjI)

section \<open>Compare and correct\<close>

lemma compareCodes_equal: "compareCodes st pc pc = Inr st"
  by (simp add: compareCodes_def)

lemma compareCodes_differ: "ham \<noteq> pc \<Longrightarrow> compareCodes st ham pc = Inl (Exit 2)"
  by (simp add: compareCodes_def Let_def)

lemma compareCodes_Inr: "compareCodes st ham pc = Inr st' \<longleftrightarrow> ham = pc \<and> st' = st"
  by (cases "ham = pc") (auto simp add: compareCodes_equal compareCodes_differ)

lemma AddRoundKey_cases:
  "AddRoundKey round st rk pc =
     (if predictAddKey round st rk pc = encode_state (AddRoundKey_state round st rk)
      then Inr (AddRoundKey_state round st rk, encode_state (AddRoundKey_state round st rk),
                encode_state (AddRoundKey_state round st rk))
      else Inl (Exit 2))"
  by (auto simp add: AddRoundKey_def Let_def compareCodes_equal compareCodes_differ)

lemma SubBytes_cases:
  "SubBytes st pc =
     (if predictSub st pc = encode_state (SubBytes_state st)
      then Inr (SubBytes_state st, encode_state (SubBytes_state st),
                encode_state (SubBytes_state st))
      else Inl (Exit 2))"
  by (auto simp add: SubBytes_def Let_def compareCodes_equal compareCodes_differ)

lemma ShiftRows_cases:
  "ShiftRows st pc =
     (if predictShift pc = encode_state (ShiftRows_state st)
      then Inr (ShiftRows_state st, encode_state (ShiftRows_state st),
                encode_state (ShiftRows_state st))
      else Inl (Exit 2))"
  by (auto simp add: ShiftRows_def Let_def compareCodes_equal compareCodes_differ)

lemma MixColumns_cases:
  "MixColumns st pc =
     (if predictMixCols st pc = encode_state (MixColumns_state st)
      then Inr (MixColumns_state st, encode_state (MixColumns_state st),
                encode_state (MixColumns_state st))
      else Inl (Exit 2))"
  by (auto simp add: MixColumns_def Let_def compareCodes_equal compareCodes_differ)

lemma AddRoundKey_ok:
  "length st = 16 \<Longrightarrow>
   AddRoundKey round st rk (encode_state st) =
     Inr (AddRoundKey_state round st rk, encode_state (AddRoundKey_state round st rk),
          encode_state (AddRoundKey_state round st rk))"
  by (simp add: AddRoundKey_cases predictAddKey_encode)

lemma SubBytes_ok:
  "length st = 16 \<Longrightarrow> length pc = 16 \<Longrightarrow>
   SubBytes st pc =
     Inr (SubBytes_state st, encode_state (SubBytes_state st), encode_state (SubBytes_state st))"
  by (simp add: SubBytes_cases predictSub_encode)

lemma ShiftRows_ok:
  "length st = 16 \<Longrightarrow>
   ShiftRows st (encode_state st) =
     Inr (ShiftRows_state st, encode_state (ShiftRows_state st), encode_state (ShiftRows_state st))"
  by (simp add: ShiftRows_cases predictShift_encode)

lemma MixColumns_ok:
  "length st = 16 \<Longrightarrow> length pc = 16 \<Longrightarrow>
   MixColumns st pc =
     Inr (MixColumns_state st, encode_state (MixColumns_state st),
          encode_state (MixColumns_state st))"
  by (simp add: MixColumns_cases predictMixCols_encode)

lemma length_AddRoundKey_state:
  assumes "length st = 16"
  shows "length (AddRoundKey_state round st rk) = 16"
proof -
  obtain a0 a1 a2 a3 a4 a5 a6 a7 a8 a9 a10 a11 a12 a13 a14 a15 where
    "st = [a0, a1, a2, a3, a4, a5, a6, a7, a8, a9, a10, a11, a12, a13, a14, a15]"
    using assms by (rule list16_cases)
  then show ?thesis
    by (simp add: AddRoundKey_state_explicit)
qed

lemma length_SubBytes_state:
  assumes "length st = 16"
  shows "length (SubBytes_state st) = 16"
proof -
  obtain a0 a1 a2 a3 a4 a5 a6 a7 a8 a9 a10 a11 a12 a13 a14 a15 where
    "st = [a0, a1, a2, a3, a4, a5, a6, a7, a8, a9, a10, a11, a12, a13, a14, a15]"
    using assms by (rule list16_cases)
  then show ?thesis
    by (simp add: SubBytes_state_explicit)
qed

lemma length_ShiftRows_state:
  assumes "length st = 16"
  shows "length (ShiftRows_state st) = 16"
proof -
  obtain a0 a1 a2 a3 a4 a5 a6 a7 a8 a9 a10 a11 a12 a13 a14 a15 where
    "st = [a0, a1, a2, a3, a4, a5, a6, a7, a8, a9, a10, a11, a12, a13, a14, a15]"
    using assms by (rule list16_cases)
  then show ?thesis
    by (simp add: ShiftRows_state_explicit)
qed

lemma length_MixColumns_state:
  assumes "length st = 16"
  shows "length (MixColumns_state st) = 16"
proof -
  obtain a0 a1 a2 a3 a4 a5 a6 a7 a8 a9 a10 a11 a12 a13 a14 a15 where
    "st = [a0, a1, a2, a3, a4, a5, a6, a7, a8, a9, a10, a11, a12, a13, a14, a15]"
    using assms by (rule list16_cases)
  then show ?thesis
    by (simp add: MixColumns_state_explicit)
qed

text \<open>
  C5.  When a round transform returns, that is when its compare-and-correct
  step has not ended the process, the Hamming encoding of the state it returns
  equals the predicted-code matrix it returns, cell by cell (and so does the
  re-encoded matrix \<^verbatim>\<open>hamstate\<close>).
\<close>

theorem codes_agree_after_transform:
  "(AddRoundKey round st rk pc = Inr (st', ham', pc') \<longrightarrow> encode_state st' = pc' \<and> ham' = pc') \<and>
   (SubBytes st pc = Inr (st', ham', pc') \<longrightarrow> encode_state st' = pc' \<and> ham' = pc') \<and>
   (ShiftRows st pc = Inr (st', ham', pc') \<longrightarrow> encode_state st' = pc' \<and> ham' = pc') \<and>
   (MixColumns st pc = Inr (st', ham', pc') \<longrightarrow> encode_state st' = pc' \<and> ham' = pc')"
  by (auto simp add: AddRoundKey_cases SubBytes_cases ShiftRows_cases MixColumns_cases
      split: if_splits)

theorem codes_agree_after_transform_witness:
  "AddRoundKey 0 nist_plain1 nist_key (encode_state nist_plain1) =
     Inr (AddRoundKey_state 0 nist_plain1 nist_key,
          encode_state (AddRoundKey_state 0 nist_plain1 nist_key),
          encode_state (AddRoundKey_state 0 nist_plain1 nist_key)) \<and>
   SubBytes nist_plain1 (encode_state nist_plain1) =
     Inr (SubBytes_state nist_plain1, encode_state (SubBytes_state nist_plain1),
          encode_state (SubBytes_state nist_plain1)) \<and>
   ShiftRows nist_plain1 (encode_state nist_plain1) =
     Inr (ShiftRows_state nist_plain1, encode_state (ShiftRows_state nist_plain1),
          encode_state (ShiftRows_state nist_plain1)) \<and>
   MixColumns nist_plain1 (encode_state nist_plain1) =
     Inr (MixColumns_state nist_plain1, encode_state (MixColumns_state nist_plain1),
          encode_state (MixColumns_state nist_plain1)) \<and>
   encode_state (AddRoundKey_state 0 nist_plain1 nist_key) =
     encode_state (AddRoundKey_state 0 nist_plain1 nist_key)"
proof -
  have a: "AddRoundKey 0 nist_plain1 nist_key (encode_state nist_plain1) =
     Inr (AddRoundKey_state 0 nist_plain1 nist_key,
          encode_state (AddRoundKey_state 0 nist_plain1 nist_key),
          encode_state (AddRoundKey_state 0 nist_plain1 nist_key))"
    using length_nist_plain1 by (rule AddRoundKey_ok)
  have b: "SubBytes nist_plain1 (encode_state nist_plain1) =
     Inr (SubBytes_state nist_plain1, encode_state (SubBytes_state nist_plain1),
          encode_state (SubBytes_state nist_plain1))"
    using length_nist_plain1 length_encode_state by (rule SubBytes_ok)
  have c: "ShiftRows nist_plain1 (encode_state nist_plain1) =
     Inr (ShiftRows_state nist_plain1, encode_state (ShiftRows_state nist_plain1),
          encode_state (ShiftRows_state nist_plain1))"
    using length_nist_plain1 by (rule ShiftRows_ok)
  have d: "MixColumns nist_plain1 (encode_state nist_plain1) =
     Inr (MixColumns_state nist_plain1, encode_state (MixColumns_state nist_plain1),
          encode_state (MixColumns_state nist_plain1))"
    using length_nist_plain1 length_encode_state by (rule MixColumns_ok)
  have "encode_state (AddRoundKey_state 0 nist_plain1 nist_key) =
     encode_state (AddRoundKey_state 0 nist_plain1 nist_key)"
    using a codes_agree_after_transform
      [of 0 nist_plain1 nist_key "encode_state nist_plain1"
          "AddRoundKey_state 0 nist_plain1 nist_key"
          "encode_state (AddRoundKey_state 0 nist_plain1 nist_key)"
          "encode_state (AddRoundKey_state 0 nist_plain1 nist_key)"]
    by blast
  with a b c d show ?thesis
    by blast
qed

text \<open>
  C4.  When the predicted and the re-encoded matrices disagree, the corrector
  runs, and the disagreement persists (the second comparison reads the same two
  matrices), \<^verbatim>\<open>compareCodes\<close> ends the process with \<^verbatim>\<open>exit(2)\<close>: the transform, and
  with it the cipher, returns no block.  The code has no other failure.
\<close>

theorem uncorrectable_fault_aborts:
  "(hamstate \<noteq> pcode \<longrightarrow> compareCodes state hamstate pcode = Inl (Exit 2)) \<and>
   (predictAddKey round state rk pcode \<noteq> encode_state (AddRoundKey_state round state rk) \<longrightarrow>
      AddRoundKey round state rk pcode = Inl (Exit 2)) \<and>
   (predictShift pcode \<noteq> encode_state (ShiftRows_state state) \<longrightarrow>
      ShiftRows state pcode = Inl (Exit 2)) \<and>
   (predictAddKey (Nr v) state rk pcode \<noteq> encode_state (AddRoundKey_state (Nr v) state rk) \<longrightarrow>
      InvCipher v state rk pcode = Inl (Exit 2))"
  by (simp add: compareCodes_differ AddRoundKey_cases ShiftRows_cases InvCipher_def)

lemma length_predictAddKey: "length (predictAddKey round st rk pc) = length pc"
  by (simp add: predictAddKey_def upt_0_4)

lemma length_predictShift: "length (predictShift pc) = length pc"
  by (simp add: predictShift_def Let_def)

lemma encode_nist_cipher1:
  "encode_state nist_cipher1 =
     [0x0c, 0x03, 0x05, 0x01, 0x0f, 0x06, 0x00, 0x0c, 0x03, 0x03, 0x02, 0x00, 0x03, 0x04, 0x02, 0x09]"
  by (simp add: nist_cipher1_def encode_state_explicit hamming_encode_def get_bit_def)

theorem uncorrectable_fault_aborts_witness:
  "encode_state nist_cipher1 \<noteq> [0, 0, 0, 0, 0, 0, 0, 0, 0, 0, 0, 0, 0, 0, 0, 0] \<and>
   compareCodes nist_cipher1 (encode_state nist_cipher1) [0, 0, 0, 0, 0, 0, 0, 0, 0, 0, 0, 0, 0, 0, 0, 0] = Inl (Exit 2) \<and>
   predictAddKey 10 nist_cipher1 nist_key [] \<noteq>
     encode_state (AddRoundKey_state 10 nist_cipher1 nist_key) \<and>
   AddRoundKey 10 nist_cipher1 nist_key [] = Inl (Exit 2) \<and>
   predictShift [] \<noteq> encode_state (ShiftRows_state nist_cipher1) \<and>
   ShiftRows nist_cipher1 [] = Inl (Exit 2) \<and>
   InvCipher AES128 nist_cipher1 nist_key [] = Inl (Exit 2)"
proof -
  have a: "encode_state nist_cipher1 \<noteq> [0, 0, 0, 0, 0, 0, 0, 0, 0, 0, 0, 0, 0, 0, 0, 0]"
    by (simp add: encode_nist_cipher1)
  have "length (predictAddKey 10 nist_cipher1 nist_key []) \<noteq>
        length (encode_state (AddRoundKey_state 10 nist_cipher1 nist_key))"
    by (simp add: length_predictAddKey length_encode_state)
  then have b: "predictAddKey 10 nist_cipher1 nist_key [] \<noteq>
        encode_state (AddRoundKey_state 10 nist_cipher1 nist_key)"
    by auto
  have "length (predictShift []) \<noteq> length (encode_state (ShiftRows_state nist_cipher1))"
    by (simp add: length_predictShift length_encode_state)
  then have c: "predictShift [] \<noteq> encode_state (ShiftRows_state nist_cipher1)"
    by auto
  have d: "predictAddKey (Nr AES128) nist_cipher1 nist_key [] \<noteq>
        encode_state (AddRoundKey_state (Nr AES128) nist_cipher1 nist_key)"
    using b by simp
  note inst1 = uncorrectable_fault_aborts
    [where hamstate = "encode_state nist_cipher1" and state = nist_cipher1
       and pcode = "[0, 0, 0, 0, 0, 0, 0, 0, 0, 0, 0, 0, 0, 0, 0, 0]"]
  note inst2 = uncorrectable_fault_aborts
    [where state = nist_cipher1 and pcode = "[]" and round = 10 and rk = nist_key
       and v = AES128]
  from inst1 inst2 a b c d show ?thesis
    by blast
qed

section \<open>The cipher against the textbook\<close>

lemma AddRoundKey_state_textbook:
  assumes "length st = 16"
  shows "AddRoundKey_state round st rk = textbook_AddRoundKey round st rk"
proof -
  obtain a0 a1 a2 a3 a4 a5 a6 a7 a8 a9 a10 a11 a12 a13 a14 a15 where
    "st = [a0, a1, a2, a3, a4, a5, a6, a7, a8, a9, a10, a11, a12, a13, a14, a15]"
    using assms by (rule list16_cases)
  then show ?thesis
    by (simp add: AddRoundKey_state_explicit textbook_AddRoundKey_def upt_0_16)
qed

lemma SubBytes_state_textbook:
  assumes "length st = 16"
  shows "SubBytes_state st = textbook_SubBytes st"
proof -
  obtain a0 a1 a2 a3 a4 a5 a6 a7 a8 a9 a10 a11 a12 a13 a14 a15 where
    "st = [a0, a1, a2, a3, a4, a5, a6, a7, a8, a9, a10, a11, a12, a13, a14, a15]"
    using assms by (rule list16_cases)
  then show ?thesis
    by (simp add: SubBytes_state_explicit textbook_SubBytes_def getSBoxValue_def)
qed

lemma ShiftRows_state_textbook:
  assumes "length st = 16"
  shows "ShiftRows_state st = textbook_ShiftRows st"
proof -
  obtain a0 a1 a2 a3 a4 a5 a6 a7 a8 a9 a10 a11 a12 a13 a14 a15 where
    "st = [a0, a1, a2, a3, a4, a5, a6, a7, a8, a9, a10, a11, a12, a13, a14, a15]"
    using assms by (rule list16_cases)
  then show ?thesis
    by (simp add: ShiftRows_state_explicit textbook_ShiftRows_def cell_def upt_0_4)
qed

lemma MixColumns_state_textbook:
  assumes "length st = 16"
  shows "MixColumns_state st = textbook_MixColumns st"
proof -
  obtain a0 a1 a2 a3 a4 a5 a6 a7 a8 a9 a10 a11 a12 a13 a14 a15 where
    "st = [a0, a1, a2, a3, a4, a5, a6, a7, a8, a9, a10, a11, a12, a13, a14, a15]"
    using assms by (rule list16_cases)
  then show ?thesis
    by (simp add: MixColumns_state_explicit textbook_MixColumns_def cell_def upt_0_4
        mix_matrix_def Multiply_1 Multiply_2 Multiply_3)
qed

lemma round_textbook:
  assumes "length st = 16"
  shows "AddRoundKey_state round (MixColumns_state (ShiftRows_state (SubBytes_state st))) rk =
         textbook_round rk round st"
proof -
  have e1: "SubBytes_state st = textbook_SubBytes st"
    using assms by (rule SubBytes_state_textbook)
  have l1: "length (textbook_SubBytes st) = 16"
    using length_SubBytes_state [OF assms] by (simp only: e1)
  have e2: "ShiftRows_state (textbook_SubBytes st) = textbook_ShiftRows (textbook_SubBytes st)"
    using l1 by (rule ShiftRows_state_textbook)
  have l2: "length (textbook_ShiftRows (textbook_SubBytes st)) = 16"
    using length_ShiftRows_state [OF l1] by (simp only: e2)
  have e3: "MixColumns_state (textbook_ShiftRows (textbook_SubBytes st)) =
            textbook_MixColumns (textbook_ShiftRows (textbook_SubBytes st))"
    using l2 by (rule MixColumns_state_textbook)
  have l3: "length (textbook_MixColumns (textbook_ShiftRows (textbook_SubBytes st))) = 16"
    using length_MixColumns_state [OF l2] by (simp only: e3)
  have e4: "AddRoundKey_state round
              (textbook_MixColumns (textbook_ShiftRows (textbook_SubBytes st))) rk =
            textbook_AddRoundKey round
              (textbook_MixColumns (textbook_ShiftRows (textbook_SubBytes st))) rk"
    using l3 by (rule AddRoundKey_state_textbook)
  show ?thesis
    by (simp only: textbook_round_def e1 e2 e3 e4)
qed

lemma length_textbook_round:
  "length st = 16 \<Longrightarrow> length (textbook_round rk round st) = 16"
  by (simp add: textbook_round_def textbook_AddRoundKey_def)

lemma Nr_bounds: "1 \<le> Nr v" "Nr v < 256"
  by (cases v; simp)+

lemma Cipher_rounds_textbook:
  assumes "length st = 16" and "length pc = 16" and "1 \<le> r" and "r \<le> Nr v"
  shows "Cipher_rounds v (of_nat r) st rk pc =
           Inr (let s = textbook_ShiftRows (textbook_SubBytes (fold (textbook_round rk) [r..<Nr v] st))
                in (s, encode_state s, encode_state s))"
  using assms
proof (induction "Nr v - r" arbitrary: r st pc)
  case 0
  then have r: "r = Nr v"
    by simp
  have sub: "SubBytes st pc =
      Inr (SubBytes_state st, encode_state (SubBytes_state st), encode_state (SubBytes_state st))"
    using 0 by (simp add: SubBytes_ok)
  have shift: "ShiftRows (SubBytes_state st) (encode_state (SubBytes_state st)) =
      Inr (ShiftRows_state (SubBytes_state st), encode_state (ShiftRows_state (SubBytes_state st)),
           encode_state (ShiftRows_state (SubBytes_state st)))"
    using 0 by (simp add: ShiftRows_ok length_SubBytes_state)
  have "ShiftRows_state (SubBytes_state st) = textbook_ShiftRows (textbook_SubBytes st)"
    using 0 by (simp add: length_SubBytes_state ShiftRows_state_textbook
        flip: SubBytes_state_textbook)
  then show ?case
    by (subst Cipher_rounds.simps) (simp add: sub shift r Let_def)
next
  case (Suc n)
  then have r: "r < Nr v" and n: "n = Nr v - Suc r"
    by simp_all
  have neq: "(of_nat r :: byte) \<noteq> of_nat (Nr v)"
  proof
    assume "(of_nat r :: byte) = of_nat (Nr v)"
    then have "unat (of_nat r :: byte) = unat (of_nat (Nr v) :: byte)"
      by simp
    then show False
      using r Nr_bounds(2) [of v] by (simp add: unat_of_nat)
  qed
  have unat_r: "unat (of_nat r :: byte) = r"
    using r Nr_bounds(2) [of v] by (simp add: unat_of_nat)
  have sub: "SubBytes st pc =
      Inr (SubBytes_state st, encode_state (SubBytes_state st), encode_state (SubBytes_state st))"
    using Suc.prems by (simp add: SubBytes_ok)
  have shift: "ShiftRows (SubBytes_state st) (encode_state (SubBytes_state st)) =
      Inr (ShiftRows_state (SubBytes_state st), encode_state (ShiftRows_state (SubBytes_state st)),
           encode_state (ShiftRows_state (SubBytes_state st)))"
    using Suc.prems by (simp add: ShiftRows_ok length_SubBytes_state)
  let ?s2 = "ShiftRows_state (SubBytes_state st)"
  have len2: "length ?s2 = 16"
    using Suc.prems by (simp add: length_SubBytes_state length_ShiftRows_state)
  have mix: "MixColumns ?s2 (encode_state ?s2) =
      Inr (MixColumns_state ?s2, encode_state (MixColumns_state ?s2),
           encode_state (MixColumns_state ?s2))"
    using len2 by (simp add: MixColumns_ok length_encode_state)
  let ?s3 = "MixColumns_state ?s2"
  have len3: "length ?s3 = 16"
    using len2 by (simp add: length_MixColumns_state)
  have add: "AddRoundKey r ?s3 rk (encode_state ?s3) =
      Inr (AddRoundKey_state r ?s3 rk, encode_state (AddRoundKey_state r ?s3 rk),
           encode_state (AddRoundKey_state r ?s3 rk))"
    using len3 by (simp add: AddRoundKey_ok)
  have s4: "AddRoundKey_state r ?s3 rk = textbook_round rk r st"
    using Suc.prems by (simp add: round_textbook)
  have len4: "length (textbook_round rk r st) = 16"
    using Suc.prems by (simp add: length_textbook_round)
  have IH: "Cipher_rounds v (of_nat (Suc r)) (textbook_round rk r st) rk
              (encode_state (textbook_round rk r st)) =
            Inr (let s = textbook_ShiftRows (textbook_SubBytes
                           (fold (textbook_round rk) [Suc r..<Nr v] (textbook_round rk r st)))
                 in (s, encode_state s, encode_state s))"
    using r n len4 by (intro Suc.hyps) (simp_all add: length_encode_state)
  have upt: "[r..<Nr v] = r # [Suc r..<Nr v]"
    using r by (simp add: upt_conv_Cons)
  have step: "of_nat r + 1 = (of_nat (Suc r) :: byte)"
    by simp
  show ?case
    by (subst Cipher_rounds.simps)
       (simp only: sub shift mix add s4 neq unat_r step IH upt sum.case prod.case if_False
          fold_simps comp_apply)
qed

lemma Cipher_textbook:
  assumes "length st = 16"
  shows "Cipher v st rk = Inr (textbook_cipher v st rk)"
proof -
  let ?s0 = "textbook_AddRoundKey 0 st rk"
  have add0: "AddRoundKey 0 st rk (encode_state st) =
      Inr (?s0, encode_state ?s0, encode_state ?s0)"
    using assms by (simp add: AddRoundKey_ok AddRoundKey_state_textbook)
  have len0: "length ?s0 = 16"
    by (simp add: textbook_AddRoundKey_def)
  let ?s1 = "textbook_ShiftRows (textbook_SubBytes (fold (textbook_round rk) [1..<Nr v] ?s0))"
  have rounds: "Cipher_rounds v 1 ?s0 rk (encode_state ?s0) = Inr (?s1, encode_state ?s1, encode_state ?s1)"
    using Cipher_rounds_textbook [of ?s0 "encode_state ?s0" 1 v rk] len0 Nr_bounds(1) [of v]
    by (simp add: length_encode_state Let_def)
  have len1: "length ?s1 = 16"
    by (simp add: textbook_ShiftRows_def upt_0_4)
  have addN: "AddRoundKey (Nr v) ?s1 rk (encode_state ?s1) =
      Inr (textbook_AddRoundKey (Nr v) ?s1 rk, encode_state (textbook_AddRoundKey (Nr v) ?s1 rk),
           encode_state (textbook_AddRoundKey (Nr v) ?s1 rk))"
    using len1 by (simp add: AddRoundKey_ok AddRoundKey_state_textbook)
  show ?thesis
    by (simp only: Cipher_def Let_def add0 rounds addN sum.case prod.case textbook_cipher_def)
qed

text \<open>
  C10.  For every round-key buffer and every 16-byte block, \<^verbatim>\<open>Cipher\<close> with its
  prediction and compare overlay returns exactly the ciphertext of the textbook
  encryption with those round keys.  \<^verbatim>\<open>compareCodes\<close> returns only when it has
  found the predicted and the re-encoded matrices equal, and then it has not
  run the corrector; so on these runs every compare step found them equal, and
  neither the corrector nor \<^verbatim>\<open>exit(2)\<close> was reached.
\<close>

theorem Cipher_refines_textbook:
  assumes "length state = 16"
  shows "Cipher v state rk = Inr (textbook_cipher v state rk) \<and>
         (\<forall>st ham pc st'. compareCodes st ham pc = Inr st' \<longrightarrow> ham = pc \<and> st' = st)"
  using assms by (simp add: Cipher_textbook compareCodes_Inr)

theorem Cipher_refines_textbook_witness:
  "length nist_plain1 = 16 \<and>
   Cipher AES128 nist_plain1 nist_key = Inr (textbook_cipher AES128 nist_plain1 nist_key) \<and>
   compareCodes nist_plain1 (encode_state nist_plain1) (encode_state nist_plain1) = Inr nist_plain1"
proof -
  note inst = Cipher_refines_textbook [OF length_nist_plain1, of AES128 nist_key]
  have "compareCodes nist_plain1 (encode_state nist_plain1) (encode_state nist_plain1) =
        Inr nist_plain1"
    by (rule compareCodes_equal)
  with inst length_nist_plain1 show ?thesis
    by blast
qed

section \<open>The corrector\<close>

lemma correct_state_explicit:
  "correct_state [a0, a1, a2, a3,
     a4, a5, a6, a7,
     a8, a9, a10, a11,
     a12, a13, a14, a15] ham pc =
   [correct_cell a0 (ham ! 0) (pc ! 0),
     correct_cell a1 (ham ! 1) (pc ! 1),
     correct_cell a2 (ham ! 2) (pc ! 2),
     correct_cell a3 (ham ! 3) (pc ! 3),
     correct_cell a4 (ham ! 4) (pc ! 4),
     correct_cell a5 (ham ! 5) (pc ! 5),
     correct_cell a6 (ham ! 6) (pc ! 6),
     correct_cell a7 (ham ! 7) (pc ! 7),
     correct_cell a8 (ham ! 8) (pc ! 8),
     correct_cell a9 (ham ! 9) (pc ! 9),
     correct_cell a10 (ham ! 10) (pc ! 10),
     correct_cell a11 (ham ! 11) (pc ! 11),
     correct_cell a12 (ham ! 12) (pc ! 12),
     correct_cell a13 (ham ! 13) (pc ! 13),
     correct_cell a14 (ham ! 14) (pc ! 14),
     correct_cell a15 (ham ! 15) (pc ! 15)]"
  by (simp add: correct_state_def unroll)

lemma cell_cases:
  assumes "c < 4" and "r < 4"
  obtains "cell c r = 0" | "cell c r = 1" | "cell c r = 2" | "cell c r = 3"
    | "cell c r = 4" | "cell c r = 5" | "cell c r = 6" | "cell c r = 7"
    | "cell c r = 8" | "cell c r = 9" | "cell c r = 10" | "cell c r = 11"
    | "cell c r = 12" | "cell c r = 13" | "cell c r = 14" | "cell c r = 15"
proof -
  have "cell c r < 16"
    using assms by (simp add: cell_def)
  then have "cell c r = 0 \<or> cell c r = 1 \<or> cell c r = 2 \<or> cell c r = 3 \<or>
      cell c r = 4 \<or> cell c r = 5 \<or> cell c r = 6 \<or> cell c r = 7 \<or>
      cell c r = 8 \<or> cell c r = 9 \<or> cell c r = 10 \<or> cell c r = 11 \<or>
      cell c r = 12 \<or> cell c r = 13 \<or> cell c r = 14 \<or> cell c r = 15"
    by arith
  then show ?thesis
    using that by blast
qed

lemma correct_state_cell:
  assumes "length st = 16" and "c < 4" and "r < 4"
  shows "correct_state st ham pc ! cell c r =
         correct_cell (st ! cell c r) (ham ! cell c r) (pc ! cell c r)"
proof -
  obtain a0 a1 a2 a3 a4 a5 a6 a7 a8 a9 a10 a11 a12 a13 a14 a15 where
    st: "st = [a0, a1, a2, a3, a4, a5, a6, a7, a8, a9, a10, a11, a12, a13, a14, a15]"
    using assms(1) by (rule list16_cases)
  from assms(2,3) show ?thesis
    by (rule cell_cases) (simp_all add: st correct_state_explicit)
qed

lemma mod2_drop_bit: "drop_bit n (w :: byte) mod 2 = 0 \<longleftrightarrow> \<not> bit w n"
  by (simp add: bit_iff_odd_drop_bit even_iff_mod_2_eq_zero)

lemma find_positions_spec: "find_positions diff = spec_positions diff"
  by (cases "bit diff 3"; cases "bit diff 2"; cases "bit diff 1"; cases "bit diff 0")
     (simp_all add: find_positions_def spec_positions_def mod2_drop_bit)

lemma correct_cell_spec:
  "correct_cell s h p =
     (if h XOR p = 0 then s
      else case map_of spec_flip_table (spec_positions (h XOR p)) of
             Some n \<Rightarrow> flip_bit s n
           | None \<Rightarrow> s)"
  by (cases "bit (h XOR p) 3"; cases "bit (h XOR p) 2"; cases "bit (h XOR p) 1";
      cases "bit (h XOR p) 0")
     (simp_all add: correct_cell_def Let_def find_positions_spec spec_positions_def
        spec_flip_table_def)

lemma bit_flip_bit: "bit (flip_bit s n) m \<longleftrightarrow> (bit s m \<noteq> (m = n \<and> n < 8))"
  by (auto simp add: flip_bit_def bit_simps)

lemma nth_differ: "xs ! k \<noteq> ys ! k \<Longrightarrow> xs \<noteq> ys"
  by auto

text \<open>
  C6.  For the cell \<open>[c][r]\<close> the corrector forms \<open>diff\<close>, the observed code XOR
  the predicted code.  If \<open>diff\<close> is zero the state byte is unchanged.  Otherwise
  the positions found by the walk over \<open>x = 3, 2, 1, 0\<close> are the first two at
  which bit \<open>x\<close> of \<open>diff\<close> is 0; when the table has an entry for them the state
  byte has exactly that data bit flipped, and when it has none the byte is
  unchanged and \<^verbatim>\<open>compareCodes\<close> ends with \<^verbatim>\<open>exit(2)\<close>.
\<close>

theorem corrector_table:
  assumes "length state = 16" and "c < 4" and "r < 4"
  shows
    "(hamstate ! cell c r XOR pcode ! cell c r = 0 \<longrightarrow>
        correct_state state hamstate pcode ! cell c r = state ! cell c r) \<and>
     (hamstate ! cell c r XOR pcode ! cell c r \<noteq> 0 \<longrightarrow>
        find_positions (hamstate ! cell c r XOR pcode ! cell c r) =
          spec_positions (hamstate ! cell c r XOR pcode ! cell c r) \<and>
        (case map_of spec_flip_table (spec_positions (hamstate ! cell c r XOR pcode ! cell c r)) of
           Some n \<Rightarrow>
             correct_state state hamstate pcode ! cell c r = flip_bit (state ! cell c r) n \<and>
             (\<forall>m. bit (flip_bit (state ! cell c r) n) m \<longleftrightarrow> (bit (state ! cell c r) m \<noteq> (m = n)))
         | None \<Rightarrow>
             correct_state state hamstate pcode ! cell c r = state ! cell c r \<and>
             compareCodes state hamstate pcode = Inl (Exit 2)))"
proof -
  let ?diff = "hamstate ! cell c r XOR pcode ! cell c r"
  have cellwise: "correct_state state hamstate pcode ! cell c r =
      (if ?diff = 0 then state ! cell c r
       else case map_of spec_flip_table (spec_positions ?diff) of
              Some n \<Rightarrow> flip_bit (state ! cell c r) n
            | None \<Rightarrow> state ! cell c r)"
    using assms by (simp only: correct_state_cell correct_cell_spec)
  have table: "n < 8" if "map_of spec_flip_table pq = Some n" for pq n
    using that by (auto simp add: spec_flip_table_def split: if_splits)
  have abort: "compareCodes state hamstate pcode = Inl (Exit 2)" if "?diff \<noteq> 0"
  proof -
    from that have "hamstate ! cell c r \<noteq> pcode ! cell c r"
      by auto
    then have "hamstate \<noteq> pcode"
      by (rule nth_differ)
    then show ?thesis
      by (rule compareCodes_differ)
  qed
  show ?thesis
    using cellwise abort table
    by (auto simp add: find_positions_spec bit_flip_bit split: option.splits)
qed

lemma length_nist_cipher1: "length nist_cipher1 = 16"
  by (simp add: nist_cipher1_def)

theorem corrector_table_witness:
  "length nist_cipher1 = 16 \<and>
   ([0x0c, 0x03, 0x05, 0x01, 0x0f, 0x06, 0x00, 0x0c, 0x03, 0x03, 0x02, 0x00, 0x03, 0x04, 0x02, 0x09] :: byte list) ! cell 0 1 XOR
     ([0x0d, 0x03, 0x0a, 0x01, 0x0f, 0x06, 0x00, 0x0c, 0x03, 0x03, 0x02, 0x00, 0x03, 0x04, 0x02, 0x09] :: byte list) ! cell 0 1 = 0 \<and>
   correct_state nist_cipher1
     ([0x0c, 0x03, 0x05, 0x01, 0x0f, 0x06, 0x00, 0x0c, 0x03, 0x03, 0x02, 0x00, 0x03, 0x04, 0x02, 0x09] :: byte list)
     ([0x0d, 0x03, 0x0a, 0x01, 0x0f, 0x06, 0x00, 0x0c, 0x03, 0x03, 0x02, 0x00, 0x03, 0x04, 0x02, 0x09] :: byte list) ! cell 0 1 = nist_cipher1 ! cell 0 1 \<and>
   ([0x0c, 0x03, 0x05, 0x01, 0x0f, 0x06, 0x00, 0x0c, 0x03, 0x03, 0x02, 0x00, 0x03, 0x04, 0x02, 0x09] :: byte list) ! cell 0 0 XOR
     ([0x0d, 0x03, 0x0a, 0x01, 0x0f, 0x06, 0x00, 0x0c, 0x03, 0x03, 0x02, 0x00, 0x03, 0x04, 0x02, 0x09] :: byte list) ! cell 0 0 \<noteq> 0 \<and>
   map_of spec_flip_table (spec_positions
     (([0x0c, 0x03, 0x05, 0x01, 0x0f, 0x06, 0x00, 0x0c, 0x03, 0x03, 0x02, 0x00, 0x03, 0x04, 0x02, 0x09] :: byte list) ! cell 0 0 XOR
      ([0x0d, 0x03, 0x0a, 0x01, 0x0f, 0x06, 0x00, 0x0c, 0x03, 0x03, 0x02, 0x00, 0x03, 0x04, 0x02, 0x09] :: byte list) ! cell 0 0)) = Some 0 \<and>
   correct_state nist_cipher1
     ([0x0c, 0x03, 0x05, 0x01, 0x0f, 0x06, 0x00, 0x0c, 0x03, 0x03, 0x02, 0x00, 0x03, 0x04, 0x02, 0x09] :: byte list)
     ([0x0d, 0x03, 0x0a, 0x01, 0x0f, 0x06, 0x00, 0x0c, 0x03, 0x03, 0x02, 0x00, 0x03, 0x04, 0x02, 0x09] :: byte list) ! cell 0 0 = flip_bit (nist_cipher1 ! cell 0 0) 0 \<and>
   ([0x0c, 0x03, 0x05, 0x01, 0x0f, 0x06, 0x00, 0x0c, 0x03, 0x03, 0x02, 0x00, 0x03, 0x04, 0x02, 0x09] :: byte list) ! cell 0 2 XOR
     ([0x0d, 0x03, 0x0a, 0x01, 0x0f, 0x06, 0x00, 0x0c, 0x03, 0x03, 0x02, 0x00, 0x03, 0x04, 0x02, 0x09] :: byte list) ! cell 0 2 \<noteq> 0 \<and>
   map_of spec_flip_table (spec_positions
     (([0x0c, 0x03, 0x05, 0x01, 0x0f, 0x06, 0x00, 0x0c, 0x03, 0x03, 0x02, 0x00, 0x03, 0x04, 0x02, 0x09] :: byte list) ! cell 0 2 XOR
      ([0x0d, 0x03, 0x0a, 0x01, 0x0f, 0x06, 0x00, 0x0c, 0x03, 0x03, 0x02, 0x00, 0x03, 0x04, 0x02, 0x09] :: byte list) ! cell 0 2)) = None \<and>
   correct_state nist_cipher1
     ([0x0c, 0x03, 0x05, 0x01, 0x0f, 0x06, 0x00, 0x0c, 0x03, 0x03, 0x02, 0x00, 0x03, 0x04, 0x02, 0x09] :: byte list)
     ([0x0d, 0x03, 0x0a, 0x01, 0x0f, 0x06, 0x00, 0x0c, 0x03, 0x03, 0x02, 0x00, 0x03, 0x04, 0x02, 0x09] :: byte list) ! cell 0 2 = nist_cipher1 ! cell 0 2 \<and>
   compareCodes nist_cipher1
     ([0x0c, 0x03, 0x05, 0x01, 0x0f, 0x06, 0x00, 0x0c, 0x03, 0x03, 0x02, 0x00, 0x03, 0x04, 0x02, 0x09] :: byte list)
     ([0x0d, 0x03, 0x0a, 0x01, 0x0f, 0x06, 0x00, 0x0c, 0x03, 0x03, 0x02, 0x00, 0x03, 0x04, 0x02, 0x09] :: byte list) = Inl (Exit 2)"
proof -
  let ?H = "[0x0c, 0x03, 0x05, 0x01, 0x0f, 0x06, 0x00, 0x0c, 0x03, 0x03, 0x02, 0x00, 0x03, 0x04, 0x02, 0x09] :: byte list"
  let ?P = "[0x0d, 0x03, 0x0a, 0x01, 0x0f, 0x06, 0x00, 0x0c, 0x03, 0x03, 0x02, 0x00, 0x03, 0x04, 0x02, 0x09] :: byte list"
  have d1: "?H ! cell 0 1 XOR ?P ! cell 0 1 = 0"
    by (simp add: cell_def)
  have d0: "?H ! cell 0 0 XOR ?P ! cell 0 0 = 1"
    by (simp add: cell_def)
  have d2: "?H ! cell 0 2 XOR ?P ! cell 0 2 = 15"
    by (simp add: cell_def)
  have t0: "map_of spec_flip_table (spec_positions (1 :: byte)) = Some 0"
    by (simp add: spec_flip_table_def spec_positions_def)
  have t2: "map_of spec_flip_table (spec_positions (15 :: byte)) = None"
    by (simp add: spec_flip_table_def spec_positions_def)
  note i1 = corrector_table [OF length_nist_cipher1, of 0 1 ?H ?P]
  note i0 = corrector_table [OF length_nist_cipher1, of 0 0 ?H ?P]
  note i2 = corrector_table [OF length_nist_cipher1, of 0 2 ?H ?P]
  have r1: "correct_state nist_cipher1 ?H ?P ! cell 0 1 = nist_cipher1 ! cell 0 1"
    using i1 d1 by simp
  have r0: "correct_state nist_cipher1 ?H ?P ! cell 0 0 = flip_bit (nist_cipher1 ! cell 0 0) 0"
    using i0 by (simp only: d0 t0 option.case) simp
  have r2: "correct_state nist_cipher1 ?H ?P ! cell 0 2 = nist_cipher1 ! cell 0 2 \<and>
            compareCodes nist_cipher1 ?H ?P = Inl (Exit 2)"
    using i2 by (simp only: d2 t2 option.case) simp
  show ?thesis
    using length_nist_cipher1 r1 r0 r2
    by (simp only: d0 d1 d2 t0 t2) simp
qed

section \<open>CTR mode\<close>

lemma length_increment_Iv: "length (increment_Iv bi iv) = length iv"
  by (induction bi iv rule: increment_Iv.induct) (subst increment_Iv.simps, simp)

lemma length_textbook_cipher: "length (textbook_cipher v st rk) = 16"
  by (simp add: textbook_cipher_def textbook_AddRoundKey_def Let_def)

text \<open>
  Two runs of the loop from the same counter state, on two buffers, return the
  same counter and change both buffers by the same keystream: the bytewise XOR
  of the two buffers is the same after as before.
\<close>

lemma CTR_loop_pair:
  assumes "length iv = 16" and "length X = length Y"
  shows "\<exists>iv' X' Y'.
           CTR_loop v rk i len bi buffer iv X = Inr (iv', X') \<and>
           CTR_loop v rk i len bi buffer iv Y = Inr (iv', Y') \<and>
           length X' = length X \<and> length Y' = length Y \<and>
           (\<forall>j < length X. X' ! j XOR Y' ! j = X ! j XOR Y ! j)"
  using assms
proof (induction "len - i" arbitrary: i bi buffer iv X Y)
  case 0
  then have "\<not> i < len"
    by simp
  then show ?case
    by (simp add: CTR_loop.simps [of v rk i len])
next
  case (Suc n)
  then have i: "i < len" and n: "n = len - (i + 1)"
    by simp_all
  show ?case
  proof (cases "bi = AES_BLOCKLEN")
    case True
    let ?buffer = "textbook_cipher v (take AES_BLOCKLEN iv) rk"
    let ?iv = "increment_Iv (int AES_BLOCKLEN - 1) iv"
    let ?X = "X[i := X ! i XOR ?buffer ! 0]"
    let ?Y = "Y[i := Y ! i XOR ?buffer ! 0]"
    have ciph: "Cipher v (take AES_BLOCKLEN iv) rk = Inr ?buffer"
      using Suc.prems(1) by (simp add: Cipher_textbook AES_BLOCKLEN_def)
    have "length ?iv = 16" and "length ?X = length ?Y"
      using Suc.prems by (simp_all add: length_increment_Iv)
    with n obtain iv' X' Y' where
      run: "CTR_loop v rk (i + 1) len (0 + 1) ?buffer ?iv ?X = Inr (iv', X')"
           "CTR_loop v rk (i + 1) len (0 + 1) ?buffer ?iv ?Y = Inr (iv', Y')"
      and len: "length X' = length ?X" "length Y' = length ?Y"
      and xor: "\<forall>j < length ?X. X' ! j XOR Y' ! j = ?X ! j XOR ?Y ! j"
      using Suc.hyps(1) [of "i + 1" ?iv ?X ?Y "0 + 1" ?buffer] by blast
    have "X' ! j XOR Y' ! j = X ! j XOR Y ! j" if "j < length X" for j
      using xor that Suc.prems(2)
      by (cases "j = i") (simp_all add: xor_cancel ac_simps)
    moreover have "CTR_loop v rk i len bi buffer iv X = Inr (iv', X')"
      using i True ciph run(1) by (simp add: CTR_loop.simps [of v rk i len] Let_def)
    moreover have "CTR_loop v rk i len bi buffer iv Y = Inr (iv', Y')"
      using i True ciph run(2) by (simp add: CTR_loop.simps [of v rk i len] Let_def)
    ultimately show ?thesis
      using len by simp
  next
    case False
    let ?X = "X[i := X ! i XOR buffer ! bi]"
    let ?Y = "Y[i := Y ! i XOR buffer ! bi]"
    have "length iv = 16" and "length ?X = length ?Y"
      using Suc.prems by simp_all
    with n obtain iv' X' Y' where
      run: "CTR_loop v rk (i + 1) len (bi + 1) buffer iv ?X = Inr (iv', X')"
           "CTR_loop v rk (i + 1) len (bi + 1) buffer iv ?Y = Inr (iv', Y')"
      and len: "length X' = length ?X" "length Y' = length ?Y"
      and xor: "\<forall>j < length ?X. X' ! j XOR Y' ! j = ?X ! j XOR ?Y ! j"
      using Suc.hyps(1) [of "i + 1" iv ?X ?Y "bi + 1" buffer] by blast
    have "X' ! j XOR Y' ! j = X ! j XOR Y ! j" if "j < length X" for j
      using xor that Suc.prems(2)
      by (cases "j = i") (simp_all add: xor_cancel ac_simps)
    moreover have "CTR_loop v rk i len bi buffer iv X = Inr (iv', X')"
      using i False run(1) by (simp add: CTR_loop.simps [of v rk i len] Let_def)
    moreover have "CTR_loop v rk i len bi buffer iv Y = Inr (iv', Y')"
      using i False run(2) by (simp add: CTR_loop.simps [of v rk i len] Let_def)
    ultimately show ?thesis
      using len by simp
  qed
qed

lemma CTR_loop_twice:
  assumes "length iv = 16"
  shows "\<exists>iv' B'.
           CTR_loop v rk i len bi buffer iv B = Inr (iv', B') \<and>
           CTR_loop v rk i len bi buffer iv B' = Inr (iv', B)"
proof -
  obtain iv1 B1 where
    one: "CTR_loop v rk i len bi buffer iv B = Inr (iv1, B1)" and "length B1 = length B"
    using CTR_loop_pair [OF assms, of B B v rk i len bi buffer] by auto
  then obtain iv2 X' Y' where
    two: "CTR_loop v rk i len bi buffer iv B = Inr (iv2, X')"
         "CTR_loop v rk i len bi buffer iv B1 = Inr (iv2, Y')"
    and len: "length X' = length B" "length Y' = length B1"
    and xor: "\<forall>j < length B. X' ! j XOR Y' ! j = B ! j XOR B1 ! j"
    using CTR_loop_pair [OF assms, of B B1 v rk i len bi buffer] by auto
  from one two(1) have eq: "iv2 = iv1" "X' = B1"
    by simp_all
  have "Y' = B"
  proof (rule nth_equalityI)
    show "length Y' = length B"
      using len \<open>length B1 = length B\<close> by simp
  next
    fix j
    assume "j < length Y'"
    then have j: "j < length B"
      using len \<open>length B1 = length B\<close> by simp
    with xor eq have "B1 ! j XOR Y' ! j = B ! j XOR B1 ! j"
      by simp
    then have "B1 ! j XOR (B1 ! j XOR Y' ! j) = B1 ! j XOR (B ! j XOR B1 ! j)"
      by simp
    then show "Y' ! j = B ! j"
      by (simp add: xor_cancel ac_simps)
  qed
  with one two(2) eq show ?thesis
    by simp
qed

text \<open>
  C9.  For every context whose counter is 16 bytes and every buffer, the CTR
  routine returns, and a second call with the same context (the same round
  keys and the same starting counter) on the result restores the buffer.
\<close>

theorem CTR_xcrypt_involution:
  assumes "length (Iv ctx) = 16" and "len \<le> length B"
  shows "\<exists>ctx' B'.
           AES_CTR_xcrypt_buffer v ctx B len = Inr (ctx', B') \<and>
           AES_CTR_xcrypt_buffer v ctx B' len = Inr (ctx', B)"
proof -
  obtain iv' B' where
    "CTR_loop v (RoundKey ctx) 0 len AES_BLOCKLEN [] (Iv ctx) B = Inr (iv', B')"
    "CTR_loop v (RoundKey ctx) 0 len AES_BLOCKLEN [] (Iv ctx) B' = Inr (iv', B)"
    using CTR_loop_twice [OF assms(1)] by blast
  then show ?thesis
    by (simp add: AES_CTR_xcrypt_buffer_def)
qed

theorem CTR_xcrypt_involution_witness:
  "length (Iv \<lparr>RoundKey = nist_round_keys, Iv = nist_key\<rparr>) = 16 \<and>
   16 \<le> length nist_plain1 \<and>
   (\<exists>ctx' B'.
      AES_CTR_xcrypt_buffer AES128 \<lparr>RoundKey = nist_round_keys, Iv = nist_key\<rparr> nist_plain1 16 =
        Inr (ctx', B') \<and>
      AES_CTR_xcrypt_buffer AES128 \<lparr>RoundKey = nist_round_keys, Iv = nist_key\<rparr> B' 16 =
        Inr (ctx', nist_plain1))"
proof -
  have iv: "length (Iv \<lparr>RoundKey = nist_round_keys, Iv = nist_key\<rparr>) = 16"
    by (simp add: nist_key_def)
  have buf: "16 \<le> length nist_plain1"
    by (simp add: length_nist_plain1)
  show ?thesis
    using iv buf CTR_xcrypt_involution [OF iv buf, of AES128] by (intro conjI)
qed

section \<open>CBC mode\<close>

lemma round_up_16:
  assumes "i mod 16 = 0"
  shows "i < 16 * ((n + 15) div 16) \<longleftrightarrow> i < (n :: nat)"
proof -
  obtain k where k: "i = 16 * k"
    using assms by (auto simp add: mod_eq_0_iff_dvd elim: dvdE)
  have "k < (n + 15) div 16 \<longleftrightarrow> Suc k \<le> (n + 15) div 16"
    by auto
  also have "\<dots> \<longleftrightarrow> Suc k * 16 \<le> n + 15"
    by (simp add: less_eq_div_iff_mult_less_eq)
  also have "\<dots> \<longleftrightarrow> 16 * k < n"
    by auto
  finally show ?thesis
    by (simp add: k)
qed

lemma CBC_encrypt_loop_round_up:
  "i mod 16 = 0 \<Longrightarrow>
   CBC_encrypt_loop v rk i (16 * ((n + 15) div 16)) iv buf = CBC_encrypt_loop v rk i n iv buf"
proof (induction v rk i n iv buf rule: CBC_encrypt_loop.induct)
  case (1 v rk i len iv buf)
  show ?case
  proof (cases "i < len")
    case True
    then have up: "i < 16 * ((len + 15) div 16)"
      using 1(2) by (simp add: round_up_16)
    have next_i: "(i + AES_BLOCKLEN) mod 16 = 0"
      using 1(2) by (simp add: AES_BLOCKLEN_def)
    show ?thesis
      using True up 1(1) [OF True refl _ next_i]
      by (subst CBC_encrypt_loop.simps, subst (2) CBC_encrypt_loop.simps)
         (auto simp add: Let_def split: sum.splits)
  next
    case False
    then have "\<not> i < 16 * ((len + 15) div 16)"
      using 1(2) by (simp add: round_up_16)
    with False show ?thesis
      by (subst CBC_encrypt_loop.simps, subst (2) CBC_encrypt_loop.simps) simp
  qed
qed

lemma CBC_decrypt_loop_round_up:
  "i mod 16 = 0 \<Longrightarrow>
   CBC_decrypt_loop v rk g i (16 * ((n + 15) div 16)) iv buf = CBC_decrypt_loop v rk g i n iv buf"
proof (induction v rk g i n iv buf rule: CBC_decrypt_loop.induct)
  case (1 v rk g i len iv buf)
  show ?case
  proof (cases "i < len")
    case True
    then have up: "i < 16 * ((len + 15) div 16)"
      using 1(2) by (simp add: round_up_16)
    have next_i: "(i + AES_BLOCKLEN) mod 16 = 0"
      using 1(2) by (simp add: AES_BLOCKLEN_def)
    show ?thesis
      using True up 1(1) [OF True refl _ refl refl next_i]
      by (subst CBC_decrypt_loop.simps, subst (2) CBC_decrypt_loop.simps)
         (auto simp add: Let_def split: sum.splits)
  next
    case False
    then have "\<not> i < 16 * ((len + 15) div 16)"
      using 1(2) by (simp add: round_up_16)
    with False show ?thesis
      by (subst CBC_decrypt_loop.simps, subst (2) CBC_decrypt_loop.simps) simp
  qed
qed

section \<open>The key schedule\<close>

lemma take4_drop:
  assumes "m + 4 \<le> length xs"
  shows "take 4 (drop m xs) = [xs ! m, xs ! (m + 1), xs ! (m + 2), xs ! (m + 3)]"
proof -
  have "drop m xs = xs ! m # xs ! (m + 1) # xs ! (m + 2) # xs ! (m + 3) # drop (m + 4) xs"
    using assms by (simp add: Cons_nth_drop_Suc numeral_eq_Suc)
  then show ?thesis
    by simp
qed

lemma update4_append:
  assumes "length p = m" and "4 \<le> length s"
  shows "(p @ s)[m + 0 := a, m + 1 := b, m + 2 := c, m + 3 := d] = p @ a # b # c # d # drop 4 s"
proof -
  obtain s0 s1 s2 s3 rest where s: "s = s0 # s1 # s2 # s3 # rest"
    using assms(2) by (auto simp add: numeral_eq_Suc Suc_le_length_iff)
  show ?thesis
    using assms(1) by (simp add: s list_update_append numeral_eq_Suc)
qed

lemma KeyExpansion_first_append:
  assumes "length p = 4 * i" and "4 \<le> length s"
  shows "KeyExpansion_first i (p @ s) key =
         p @ key ! (4 * i) # key ! (4 * i + 1) # key ! (4 * i + 2) # key ! (4 * i + 3) # drop 4 s"
  using update4_append [OF assms]
  by (simp add: KeyExpansion_first_def mult.commute)

lemma KeyExpansion_first_loop:
  assumes "4 * n \<le> length rk" and "4 * n \<le> length key"
  shows "fold (\<lambda>i rk. KeyExpansion_first i rk key) [0..<n] rk = take (4 * n) key @ drop (4 * n) rk"
  using assms
proof (induction n)
  case 0
  then show ?case
    by simp
next
  case (Suc n)
  have len: "length (take (4 * n) key) = 4 * n" "4 \<le> length (drop (4 * n) rk)"
    using Suc.prems by simp_all
  have "take (4 * Suc n) key = take (4 * n) key @ take 4 (drop (4 * n) key)"
    by (simp add: take_add [symmetric] add.commute)
  also have "take 4 (drop (4 * n) key) =
      [key ! (4 * n), key ! (4 * n + 1), key ! (4 * n + 2), key ! (4 * n + 3)]"
    using Suc.prems by (intro take4_drop) simp
  finally have key: "take (4 * Suc n) key =
      take (4 * n) key @ [key ! (4 * n), key ! (4 * n + 1), key ! (4 * n + 2), key ! (4 * n + 3)]" .
  have "fold (\<lambda>i rk. KeyExpansion_first i rk key) [0..<Suc n] rk =
        KeyExpansion_first n (fold (\<lambda>i rk. KeyExpansion_first i rk key) [0..<n] rk) key"
    by simp
  also have "\<dots> = KeyExpansion_first n (take (4 * n) key @ drop (4 * n) rk) key"
    using Suc by simp
  also have "\<dots> = take (4 * n) key @
      key ! (4 * n) # key ! (4 * n + 1) # key ! (4 * n + 2) # key ! (4 * n + 3) #
      drop 4 (drop (4 * n) rk)"
    using len by (rule KeyExpansion_first_append)
  also have "\<dots> = (take (4 * n) key @
      [key ! (4 * n), key ! (4 * n + 1), key ! (4 * n + 2), key ! (4 * n + 3)]) @
      drop (4 * Suc n) rk"
    by (simp add: add.commute)
  also have "\<dots> = take (4 * Suc n) key @ drop (4 * Suc n) rk"
    by (simp only: key)
  finally show ?case .
qed

lemma length_textbook_next_word:
  "length prev = 4 \<Longrightarrow> length back = 4 \<Longrightarrow> length (textbook_next_word v i prev back) = 4"
  by (simp add: textbook_next_word_def Let_def)

lemma KeyExpansion_tempa_explicit:
  "KeyExpansion_tempa v i [t0, t1, t2, t3] =
     (let tempa =
        (if i mod Nk v = 0 then
           [sbox ! unat t1 XOR Rcon ! (i div Nk v), sbox ! unat t2, sbox ! unat t3, sbox ! unat t0]
         else [t0, t1, t2, t3])
      in if v = AES256 \<and> i mod Nk v = 4 then map (\<lambda>b. sbox ! unat b) tempa else tempa)"
  by (cases "i mod Nk v = 0"; cases "v = AES256 \<and> i mod Nk v = 4")
     (auto simp add: KeyExpansion_tempa_def getSBoxValue_def list_update_Cons_numeral Let_def)

lemma rotate_1_word: "rotate 1 [t0, t1, t2, t3] = [t1, t2, t3, t0]"
  by (simp add: rotate_def)

lemma textbook_next_word_explicit:
  "textbook_next_word v i [t0, t1, t2, t3] [b0, b1, b2, b3] =
     (let tempa = KeyExpansion_tempa v i [t0, t1, t2, t3]
      in [b0 XOR tempa ! 0, b1 XOR tempa ! 1, b2 XOR tempa ! 2, b3 XOR tempa ! 3])"
  by (cases "i mod Nk v = 0"; cases "v = AES256 \<and> i mod Nk v = 4")
     (auto simp add: textbook_next_word_def KeyExpansion_tempa_explicit rotate_1_word Let_def
        list_update_Cons_numeral)

lemma nth_update_other: "take m xs = p \<Longrightarrow> n < m \<Longrightarrow> m \<le> j \<Longrightarrow> (xs[j := x]) ! n = p ! n"
  by (metis not_le nth_list_update_neq nth_take)

lemma take_update_other: "take m xs = p \<Longrightarrow> m \<le> j \<Longrightarrow> take m (xs[j := x]) = p"
  by simp

lemma KeyExpansion_next_append:
  assumes "length p = 4 * i" and "4 \<le> length s" and "1 \<le> Nk v" and "Nk v \<le> i"
  shows "KeyExpansion_next v i (p @ s) =
         p @ textbook_next_word v i (take 4 (drop (4 * (i - 1)) p))
                (take 4 (drop (4 * (i - Nk v)) p)) @ drop 4 s"
proof -
  let ?k = "(i - 1) * 4" and ?k' = "(i - Nk v) * 4"
  have k: "?k + 4 \<le> length p" and k': "?k' + 4 \<le> length p"
    using assms by simp_all
  have wprev: "take 4 (drop (4 * (i - 1)) p) = [p ! ?k, p ! (?k + 1), p ! (?k + 2), p ! (?k + 3)]"
    using take4_drop [OF k] by (simp add: mult.commute)
  have wback: "take 4 (drop (4 * (i - Nk v)) p) =
      [p ! ?k', p ! (?k' + 1), p ! (?k' + 2), p ! (?k' + 3)]"
    using take4_drop [OF k'] by (simp add: mult.commute)
  define T where "T = KeyExpansion_tempa v i [p ! ?k, p ! (?k + 1), p ! (?k + 2), p ! (?k + 3)]"
  have len: "length p = i * 4"
    using assms(1) by simp
  have tk: "take (i * 4) (p @ s) = p"
    using len by simp
  have lt: "?k + 0 < i * 4" "?k + 1 < i * 4" "?k + 2 < i * 4" "?k + 3 < i * 4"
      "?k' + 0 < i * 4" "?k' + 1 < i * 4" "?k' + 2 < i * 4" "?k' + 3 < i * 4"
    using k k' len by simp_all
  have rd: "(p @ s) ! n = p ! n" if "n < i * 4" for n
    using that len by (simp add: nth_append)
  have load: "[(p @ s) ! (?k + 0), (p @ s) ! (?k + 1), (p @ s) ! (?k + 2), (p @ s) ! (?k + 3)] =
      [p ! ?k, p ! (?k + 1), p ! (?k + 2), p ! (?k + 3)]"
    using lt by (simp add: rd)
  let ?r1 = "(p @ s)[i * 4 + 0 := p ! ?k' XOR T ! 0]"
  let ?r2 = "?r1[i * 4 + 1 := p ! (?k' + 1) XOR T ! 1]"
  let ?r3 = "?r2[i * 4 + 2 := p ! (?k' + 2) XOR T ! 2]"
  let ?r4 = "?r3[i * 4 + 3 := p ! (?k' + 3) XOR T ! 3]"
  have t1: "take (i * 4) ?r1 = p"
    using tk by (rule take_update_other) simp
  have t2: "take (i * 4) ?r2 = p"
    using t1 by (rule take_update_other) simp
  have t3: "take (i * 4) ?r3 = p"
    using t2 by (rule take_update_other) simp
  have n0: "(p @ s) ! (?k' + 0) = p ! ?k'"
    using lt by (simp add: rd)
  have n1: "?r1 ! (?k' + 1) = p ! (?k' + 1)"
    using tk lt(6) by (rule nth_update_other) simp
  have n2: "?r2 ! (?k' + 2) = p ! (?k' + 2)"
    using t1 lt(7) by (rule nth_update_other) simp
  have n3: "?r3 ! (?k' + 3) = p ! (?k' + 3)"
    using t2 lt(8) by (rule nth_update_other) simp
  have "KeyExpansion_next v i (p @ s) = ?r4"
    unfolding KeyExpansion_next_def Let_def load T_def [symmetric]
    by (simp only: n0 n1 n2 n3)
  also have "\<dots> = p @ (p ! ?k' XOR T ! 0) # (p ! (?k' + 1) XOR T ! 1) #
      (p ! (?k' + 2) XOR T ! 2) # (p ! (?k' + 3) XOR T ! 3) # drop 4 s"
    using len assms(2) by (rule update4_append)
  also have "\<dots> = p @ textbook_next_word v i (take 4 (drop (4 * (i - 1)) p))
      (take 4 (drop (4 * (i - Nk v)) p)) @ drop 4 s"
    unfolding wprev wback textbook_next_word_explicit T_def [symmetric] Let_def
    by simp
  finally show ?thesis .
qed

lemma rev_take4:
  assumes "length q = L" and "m + 4 \<le> L"
  shows "rev (take 4 (drop m q)) = take 4 (drop (L - m - 4) (rev q))"
proof -
  have "rev (take 4 (drop m q)) = drop (length (drop m q) - 4) (rev (drop m q))"
    by (rule rev_take)
  also have "\<dots> = drop (L - m - 4) (take (L - m) (rev q))"
    using assms by (simp add: rev_drop)
  also have "\<dots> = take 4 (drop (L - m - 4) (rev q))"
    using assms by (simp add: drop_take)
  finally show ?thesis .
qed

lemma KeyExpansion_next_loop:
  assumes "length p = 4 * i" and "4 * n \<le> length s" and "1 \<le> Nk v" and "Nk v \<le> i"
  shows "fold (KeyExpansion_next v) [i..<i + n] (p @ s) =
           rev (fold (\<lambda>i q. rev (textbook_next_word v i (rev (take 4 q))
                                 (rev (take 4 (drop (4 * (Nk v - 1)) q)))) @ q)
                  [i..<i + n] (rev p)) @ drop (4 * n) s \<and>
         length (fold (\<lambda>i q. rev (textbook_next_word v i (rev (take 4 q))
                                 (rev (take 4 (drop (4 * (Nk v - 1)) q)))) @ q)
                  [i..<i + n] (rev p)) = 4 * (i + n)"
  using assms(2)
proof (induction n)
  case 0
  then show ?case
    using assms(1) by simp
next
  case (Suc n)
  let ?G = "\<lambda>i q. rev (textbook_next_word v i (rev (take 4 q))
                        (rev (take 4 (drop (4 * (Nk v - 1)) q)))) @ q"
  let ?q = "fold ?G [i..<i + n] (rev p)"
  have IH: "fold (KeyExpansion_next v) [i..<i + n] (p @ s) = rev ?q @ drop (4 * n) s"
    and lq: "length ?q = 4 * (i + n)"
    using Suc by simp_all
  have lrq: "length (rev ?q) = 4 * (i + n)"
    using lq by simp
  have ls: "4 \<le> length (drop (4 * n) s)"
    using Suc.prems by simp
  have le: "Nk v \<le> i + n"
    using assms(4) by simp
  have w1: "rev (take 4 ?q) = take 4 (drop (4 * (i + n - 1)) (rev ?q))"
    using rev_take4 [OF lq, of 0] assms(3,4) by (simp add: algebra_simps)
  have w2: "rev (take 4 (drop (4 * (Nk v - 1)) ?q)) = take 4 (drop (4 * (i + n - Nk v)) (rev ?q))"
  proof -
    have "4 * (Nk v - 1) + 4 \<le> 4 * (i + n)"
      using assms(3,4) by simp
    moreover have "4 * (i + n) - 4 * (Nk v - 1) - 4 = 4 * (i + n - Nk v)"
      using assms(3,4) by simp
    ultimately show ?thesis
      using rev_take4 [OF lq, of "4 * (Nk v - 1)"] by simp
  qed
  have lw: "length (textbook_next_word v (i + n) (rev (take 4 ?q))
      (rev (take 4 (drop (4 * (Nk v - 1)) ?q)))) = 4"
    using lq assms(3,4) by (intro length_textbook_next_word) simp_all
  have "fold (KeyExpansion_next v) [i..<i + Suc n] (p @ s) =
        KeyExpansion_next v (i + n) (fold (KeyExpansion_next v) [i..<i + n] (p @ s))"
    by simp
  also have "\<dots> = KeyExpansion_next v (i + n) (rev ?q @ drop (4 * n) s)"
    by (simp only: IH)
  also have "\<dots> = rev ?q @ textbook_next_word v (i + n) (take 4 (drop (4 * (i + n - 1)) (rev ?q)))
      (take 4 (drop (4 * (i + n - Nk v)) (rev ?q))) @ drop 4 (drop (4 * n) s)"
    using lrq ls assms(3) le by (rule KeyExpansion_next_append)
  also have "\<dots> = rev (?G (i + n) ?q) @ drop (4 * Suc n) s"
  proof -
    have r: "rev (?G (i + n) ?q) =
        rev ?q @ textbook_next_word v (i + n) (take 4 (drop (4 * (i + n - 1)) (rev ?q)))
          (take 4 (drop (4 * (i + n - Nk v)) (rev ?q)))"
      by (simp only: rev_append rev_rev_ident w1 w2)
    have d: "drop 4 (drop (4 * n) s) = drop (4 * Suc n) s"
      by (simp add: add.commute)
    show ?thesis
      by (simp only: r d append_assoc)
  qed
  also have "?G (i + n) ?q = fold ?G [i..<i + Suc n] (rev p)"
    by simp
  finally have a: "fold (KeyExpansion_next v) [i..<i + Suc n] (p @ s) =
      rev (fold ?G [i..<i + Suc n] (rev p)) @ drop (4 * Suc n) s" .
  have "length (fold ?G [i..<i + Suc n] (rev p)) = length (?G (i + n) ?q)"
    by simp
  also have "\<dots> = 4 * (i + Suc n)"
    using lw lq by simp
  finally show ?case
    using a by simp
qed

lemma Nk_bounds: "1 \<le> Nk v" "Nk v \<le> Nb * (Nr v + 1)"
  by (cases v; simp add: Nb_def)+

lemma KeyExpansion_textbook:
  assumes "length rk = 4 * (Nb * (Nr v + 1))" and "4 * Nk v \<le> length key"
  shows "KeyExpansion v rk key = textbook_schedule v key"
proof -
  obtain n where n: "Nb * (Nr v + 1) = Nk v + n"
    using Nk_bounds(2) [of v] by (auto simp add: le_iff_add)
  have first: "fold (\<lambda>i rk. KeyExpansion_first i rk key) [0..<Nk v] rk =
      take (4 * Nk v) key @ drop (4 * Nk v) rk"
    using assms n by (intro KeyExpansion_first_loop) simp_all
  have lp: "length (take (4 * Nk v) key) = 4 * Nk v"
    using assms(2) by simp
  have ls: "4 * n \<le> length (drop (4 * Nk v) rk)"
    using assms(1) n by simp
  have e: "drop (4 * n) (drop (4 * Nk v) rk) = []"
    using assms(1) n by simp
  have "KeyExpansion v rk key =
      fold (KeyExpansion_next v) [Nk v..<Nk v + n] (take (4 * Nk v) key @ drop (4 * Nk v) rk)"
    by (simp only: KeyExpansion_def Let_def first n)
  also have "\<dots> = textbook_schedule v key"
    using KeyExpansion_next_loop [OF lp ls Nk_bounds(1) order_refl, THEN conjunct1]
    by (simp only: e append_Nil2 textbook_schedule_def textbook_schedule_rev_def n)
  finally show ?thesis .
qed

section \<open>Table lookups\<close>

lemma table_at_drop: "0 \<le> k \<Longrightarrow> table_at T k (drop (nat k) T)"
proof (induction "length T - nat k" arbitrary: k)
  case 0
  then show ?case
    by simp
next
  case (Suc n)
  then have "nat k < length T"
    by simp
  then have "drop (nat k) T = T ! nat k # drop (nat (k + 1)) T"
    using Suc.prems by (simp add: Cons_nth_drop_Suc nat_add_distrib)
  moreover have "table_at T (k + 1) (drop (nat (k + 1)) T)"
    using Suc by (intro Suc.hyps(1)) (simp_all add: nat_add_distrib)
  ultimately show ?case
    by simp
qed

lemma table_at_all: "T = xs \<Longrightarrow> table_at T 0 xs"
  using table_at_drop [of 0 T] by simp

lemmas sbox_nth = table_at_all [OF sbox_def, simplified]

lemmas rsbox_nth = table_at_all [OF rsbox_def, simplified]

lemmas Rcon_nth = table_at_all [OF Rcon_def, simplified]

lemmas nist_round_keys_nth = table_at_all [OF nist_round_keys_def, simplified]

section \<open>The test vectors\<close>

lemma nist_schedule: "textbook_schedule AES128 nist_key = nist_round_keys"
  by (simp add: textbook_schedule_def textbook_schedule_rev_def nist_key_def
      nist_round_keys_def Nb_def textbook_next_word_def sbox_nth Rcon_nth rotate_1_word
      list_update_Cons_numeral)

lemma KeyExpansion_nist:
  assumes "length rk = 176"
  shows "KeyExpansion AES128 rk nist_key = nist_round_keys"
proof -
  have "KeyExpansion AES128 rk nist_key = textbook_schedule AES128 nist_key"
    using assms by (intro KeyExpansion_textbook) (simp_all add: Nb_def nist_key_def)
  then show ?thesis
    by (simp only: nist_schedule)
qed

lemma length16: "length [a0, a1, a2, a3,
     a4, a5, a6, a7,
     a8, a9, a10, a11,
     a12, a13, a14, a15] = 16"
  by simp

lemma textbook_AddRoundKey_explicit:
  "textbook_AddRoundKey round [a0, a1, a2, a3,
     a4, a5, a6, a7,
     a8, a9, a10, a11,
     a12, a13, a14, a15] rk =
   [a0 XOR rk ! (16 * round + 0),
     a1 XOR rk ! (16 * round + 1),
     a2 XOR rk ! (16 * round + 2),
     a3 XOR rk ! (16 * round + 3),
     a4 XOR rk ! (16 * round + 4),
     a5 XOR rk ! (16 * round + 5),
     a6 XOR rk ! (16 * round + 6),
     a7 XOR rk ! (16 * round + 7),
     a8 XOR rk ! (16 * round + 8),
     a9 XOR rk ! (16 * round + 9),
     a10 XOR rk ! (16 * round + 10),
     a11 XOR rk ! (16 * round + 11),
     a12 XOR rk ! (16 * round + 12),
     a13 XOR rk ! (16 * round + 13),
     a14 XOR rk ! (16 * round + 14),
     a15 XOR rk ! (16 * round + 15)]"
  by (simp add: textbook_AddRoundKey_def upt_0_16)

lemma textbook_SubBytes_explicit:
  "textbook_SubBytes [a0, a1, a2, a3,
     a4, a5, a6, a7,
     a8, a9, a10, a11,
     a12, a13, a14, a15] =
   [sbox ! unat a0, sbox ! unat a1, sbox ! unat a2, sbox ! unat a3,
     sbox ! unat a4, sbox ! unat a5, sbox ! unat a6, sbox ! unat a7,
     sbox ! unat a8, sbox ! unat a9, sbox ! unat a10, sbox ! unat a11,
     sbox ! unat a12, sbox ! unat a13, sbox ! unat a14, sbox ! unat a15]"
  by (simp add: textbook_SubBytes_def)

lemma textbook_ShiftRows_explicit:
  "textbook_ShiftRows [a0, a1, a2, a3,
     a4, a5, a6, a7,
     a8, a9, a10, a11,
     a12, a13, a14, a15] =
   [a0, a5, a10, a15,
     a4, a9, a14, a3,
     a8, a13, a2, a7,
     a12, a1, a6, a11]"
  by (simp only: ShiftRows_state_textbook [OF length16, symmetric] ShiftRows_state_explicit)

lemma textbook_MixColumns_explicit:
  "textbook_MixColumns [a0, a1, a2, a3,
     a4, a5, a6, a7,
     a8, a9, a10, a11,
     a12, a13, a14, a15] =
   [xtime a0 XOR (a1 XOR xtime a1) XOR a2 XOR a3,
     a0 XOR xtime a1 XOR (a2 XOR xtime a2) XOR a3,
     a0 XOR a1 XOR xtime a2 XOR (a3 XOR xtime a3),
     (a0 XOR xtime a0) XOR a1 XOR a2 XOR xtime a3,
     xtime a4 XOR (a5 XOR xtime a5) XOR a6 XOR a7,
     a4 XOR xtime a5 XOR (a6 XOR xtime a6) XOR a7,
     a4 XOR a5 XOR xtime a6 XOR (a7 XOR xtime a7),
     (a4 XOR xtime a4) XOR a5 XOR a6 XOR xtime a7,
     xtime a8 XOR (a9 XOR xtime a9) XOR a10 XOR a11,
     a8 XOR xtime a9 XOR (a10 XOR xtime a10) XOR a11,
     a8 XOR a9 XOR xtime a10 XOR (a11 XOR xtime a11),
     (a8 XOR xtime a8) XOR a9 XOR a10 XOR xtime a11,
     xtime a12 XOR (a13 XOR xtime a13) XOR a14 XOR a15,
     a12 XOR xtime a13 XOR (a14 XOR xtime a14) XOR a15,
     a12 XOR a13 XOR xtime a14 XOR (a15 XOR xtime a15),
     (a12 XOR xtime a12) XOR a13 XOR a14 XOR xtime a15]"
  by (simp only: MixColumns_state_textbook [OF length16, symmetric] MixColumns_state_explicit)

lemma upt_rounds_128: "[Suc 0..<10] = [1, 2, 3, 4, 5, 6, 7, 8, 9]"
  by (simp add: upt_rec)

lemmas textbook_eval =
  textbook_cipher_def textbook_round_def textbook_AddRoundKey_explicit
  textbook_SubBytes_explicit textbook_ShiftRows_explicit textbook_MixColumns_explicit
  xtime_def upt_rounds_128 sbox_nth nist_round_keys_nth

lemma nist_block1: "textbook_cipher AES128 nist_plain1 nist_round_keys = nist_cipher1"
  by (simp add: textbook_eval nist_plain1_def nist_cipher1_def numeral_2_eq_2 [symmetric])

lemma nist_block2: "textbook_cipher AES128 nist_plain2 nist_round_keys = nist_cipher2"
  by (simp add: textbook_eval nist_plain2_def nist_cipher2_def numeral_2_eq_2 [symmetric])

lemma nist_block3: "textbook_cipher AES128 nist_plain3 nist_round_keys = nist_cipher3"
  by (simp add: textbook_eval nist_plain3_def nist_cipher3_def numeral_2_eq_2 [symmetric])

lemma nist_block4: "textbook_cipher AES128 nist_plain4 nist_round_keys = nist_cipher4"
  by (simp add: textbook_eval nist_plain4_def nist_cipher4_def numeral_2_eq_2 [symmetric])

lemma length_nist_blocks:
  "length nist_plain2 = 16" "length nist_plain3 = 16" "length nist_plain4 = 16"
  by (simp_all add: nist_plain2_def nist_plain3_def nist_plain4_def)

text \<open>
  C1.  With the context initialised by \<^verbatim>\<open>AES_init_ctx\<close> from the key
  \<open>2b7e151628aed2a6abf7158809cf4f3c\<close> (AES-128, so the round-key buffer holds 176
  bytes), \<^verbatim>\<open>AES_ECB_encrypt\<close> turns each of the four plaintext blocks of NIST SP
  800-38A into the expected ciphertext block.
\<close>

theorem nist_ecb_vectors:
  assumes "length (RoundKey ctx) = 176"
  shows "AES_ECB_encrypt AES128 (AES_init_ctx AES128 ctx nist_key) nist_plain1 = Inr nist_cipher1 \<and>
         AES_ECB_encrypt AES128 (AES_init_ctx AES128 ctx nist_key) nist_plain2 = Inr nist_cipher2 \<and>
         AES_ECB_encrypt AES128 (AES_init_ctx AES128 ctx nist_key) nist_plain3 = Inr nist_cipher3 \<and>
         AES_ECB_encrypt AES128 (AES_init_ctx AES128 ctx nist_key) nist_plain4 = Inr nist_cipher4"
proof -
  have rk: "RoundKey (AES_init_ctx AES128 ctx nist_key) = nist_round_keys"
    using assms by (simp add: AES_init_ctx_def KeyExpansion_nist)
  show ?thesis
    by (simp only: AES_ECB_encrypt_def rk
          Cipher_textbook [OF length_nist_plain1] Cipher_textbook [OF length_nist_blocks(1)]
          Cipher_textbook [OF length_nist_blocks(2)] Cipher_textbook [OF length_nist_blocks(3)]
          nist_block1 nist_block2 nist_block3 nist_block4 simp_thms)
qed

theorem nist_ecb_vectors_witness:
  "length (RoundKey \<lparr>RoundKey = replicate 176 0, Iv = []\<rparr>) = 176 \<and>
   AES_ECB_encrypt AES128 (AES_init_ctx AES128 \<lparr>RoundKey = replicate 176 0, Iv = []\<rparr> nist_key)
     nist_plain1 = Inr nist_cipher1 \<and>
   AES_ECB_encrypt AES128 (AES_init_ctx AES128 \<lparr>RoundKey = replicate 176 0, Iv = []\<rparr> nist_key)
     nist_plain2 = Inr nist_cipher2 \<and>
   AES_ECB_encrypt AES128 (AES_init_ctx AES128 \<lparr>RoundKey = replicate 176 0, Iv = []\<rparr> nist_key)
     nist_plain3 = Inr nist_cipher3 \<and>
   AES_ECB_encrypt AES128 (AES_init_ctx AES128 \<lparr>RoundKey = replicate 176 0, Iv = []\<rparr> nist_key)
     nist_plain4 = Inr nist_cipher4"
proof -
  have len: "length (RoundKey \<lparr>RoundKey = replicate 176 0, Iv = []\<rparr>) = 176"
    by simp
  show ?thesis
    using len nist_ecb_vectors [OF len] by (rule conjI)
qed

section \<open>Decryption\<close>

lemma xor_right_cancel: "a XOR c = b XOR c \<longleftrightarrow> a = (b :: byte)"
proof
  assume "a XOR c = b XOR c"
  then have "(a XOR c) XOR c = (b XOR c) XOR c"
    by simp
  then show "a = b"
    by (simp add: xor.assoc)
qed simp

lemma predictAddKey_inject:
  assumes "length pc = 16" and "length pc' = 16"
    and "predictAddKey round st rk pc = predictAddKey round st rk pc'"
  shows "pc = pc'"
proof -
  obtain p0 p1 p2 p3 p4 p5 p6 p7 p8 p9 p10 p11 p12 p13 p14 p15 where
    pc: "pc = [p0, p1, p2, p3, p4, p5, p6, p7, p8, p9, p10, p11, p12, p13, p14, p15]"
    using assms(1) by (rule list16_cases)
  obtain a0 a1 a2 a3 a4 a5 a6 a7 a8 a9 a10 a11 a12 a13 a14 a15 where
    pc': "pc' = [a0, a1, a2, a3, a4, a5, a6, a7, a8, a9, a10, a11, a12, a13, a14, a15]"
    using assms(2) by (rule list16_cases)
  show ?thesis
    using assms(3) unfolding pc pc'
    by (simp add: predictAddKey_explicit xor_right_cancel)
qed

lemma AddRoundKey_mismatch:
  assumes "length st = 16" and "pc \<noteq> encode_state st"
  shows "AddRoundKey round st rk pc = Inl (Exit 2)"
proof -
  have "predictAddKey round st rk pc \<noteq> encode_state (AddRoundKey_state round st rk)"
  proof (cases "length pc = 16")
    case True
    show ?thesis
    proof
      assume "predictAddKey round st rk pc = encode_state (AddRoundKey_state round st rk)"
      then have "predictAddKey round st rk pc = predictAddKey round st rk (encode_state st)"
        using assms(1) by (simp add: predictAddKey_encode)
      with True have "pc = encode_state st"
        by (intro predictAddKey_inject [of pc "encode_state st" round st rk])
           (simp_all add: length_encode_state)
      with assms(2) show False
        by simp
    qed
  next
    case False
    then have "length (predictAddKey round st rk pc) \<noteq>
        length (encode_state (AddRoundKey_state round st rk))"
      by (simp add: length_predictAddKey length_encode_state)
    then show ?thesis
      by auto
  qed
  then show ?thesis
    by (simp add: AddRoundKey_cases)
qed

lemma InvShiftRows_explicit:
  "InvShiftRows [a0, a1, a2, a3,
     a4, a5, a6, a7,
     a8, a9, a10, a11,
     a12, a13, a14, a15] =
   [a0, a13, a10, a7,
     a4, a1, a14, a11,
     a8, a5, a2, a15,
     a12, a9, a6, a3]"
  by (simp add: InvShiftRows_def unroll)

lemma InvSubBytes_explicit:
  "InvSubBytes [a0, a1, a2, a3,
     a4, a5, a6, a7,
     a8, a9, a10, a11,
     a12, a13, a14, a15] =
   [rsbox ! unat a0, rsbox ! unat a1, rsbox ! unat a2, rsbox ! unat a3,
     rsbox ! unat a4, rsbox ! unat a5, rsbox ! unat a6, rsbox ! unat a7,
     rsbox ! unat a8, rsbox ! unat a9, rsbox ! unat a10, rsbox ! unat a11,
     rsbox ! unat a12, rsbox ! unat a13, rsbox ! unat a14, rsbox ! unat a15]"
  by (simp add: InvSubBytes_def unroll getSBoxInvert_def)

lemma nist_decrypt_first:
  "AddRoundKey_state 10 nist_cipher1 nist_round_keys =
     [0xea, 0xc3, 0x82, 0x1c, 0xc4, 0x94, 0x13, 0xe9, 0x49, 0xa1, 0xc6, 0x3b, 0x92, 0x05, 0xe3, 0x31]"
  by (simp add: nist_cipher1_def AddRoundKey_state_explicit nist_round_keys_nth)

lemma nist_decrypt_codes:
  "encode_state (AddRoundKey_state 10 nist_cipher1 nist_round_keys) \<noteq>
   encode_state (InvSubBytes (InvShiftRows (AddRoundKey_state 10 nist_cipher1 nist_round_keys)))"
  by (simp add: nist_decrypt_first InvShiftRows_explicit InvSubBytes_explicit rsbox_nth
      encode_state_explicit hamming_encode_def get_bit_def)

lemma InvCipher_nist_aborts:
  "InvCipher AES128 nist_cipher1 nist_round_keys pcode = Inl (Exit 2)"
proof (cases "pcode = encode_state nist_cipher1")
  case False
  then have "AddRoundKey (Nr AES128) nist_cipher1 nist_round_keys pcode = Inl (Exit 2)"
    using length_nist_cipher1 by (intro AddRoundKey_mismatch)
  then show ?thesis
    by (simp add: InvCipher_def)
next
  case True
  let ?s1 = "AddRoundKey_state 10 nist_cipher1 nist_round_keys"
  let ?s2 = "InvSubBytes (InvShiftRows ?s1)"
  have first: "AddRoundKey 10 nist_cipher1 nist_round_keys pcode =
      Inr (?s1, encode_state ?s1, encode_state ?s1)"
    using length_nist_cipher1 by (simp add: True AddRoundKey_ok)
  have "length ?s2 = 16"
    by (simp add: nist_decrypt_first InvShiftRows_explicit InvSubBytes_explicit)
  then have second: "AddRoundKey (unat (9 :: byte)) ?s2 nist_round_keys (encode_state ?s1) =
      Inl (Exit 2)"
    using nist_decrypt_codes by (intro AddRoundKey_mismatch)
  have rounds: "InvCipher_rounds 9 ?s1 nist_round_keys (encode_state ?s1) = Inl (Exit 2)"
    by (subst InvCipher_rounds.simps) (simp only: Let_def second sum.case)
  have n: "Nr AES128 = 10" and w: "(of_nat (10 - 1) :: byte) = 9"
    by simp_all
  show ?thesis
    by (simp only: InvCipher_def n w first rounds sum.case prod.case)
qed

text \<open>
  C2.  The round trip fails on the code.  \<^verbatim>\<open>InvCipher\<close> passes its uninitialised
  \<^verbatim>\<open>pcode\<close> to \<^verbatim>\<open>AddRoundKey\<close>, and its inverse transforms have no predictors.
  With the key of NIST SP 800-38A, decrypting the ciphertext of the first
  plaintext block ends with \<^verbatim>\<open>exit(2)\<close> whatever the uninitialised \<^verbatim>\<open>pcode\<close> holds:
  no plaintext is returned.
\<close>

theorem ECB_decrypt_aborts:
  assumes "length (RoundKey ctx) = 176"
  shows "AES_ECB_encrypt AES128 (AES_init_ctx AES128 ctx nist_key) nist_plain1 = Inr nist_cipher1 \<and>
         AES_ECB_decrypt AES128 (AES_init_ctx AES128 ctx nist_key) pcode nist_cipher1 = Inl (Exit 2)"
proof -
  have rk: "RoundKey (AES_init_ctx AES128 ctx nist_key) = nist_round_keys"
    using assms by (simp add: AES_init_ctx_def KeyExpansion_nist)
  show ?thesis
    by (simp only: AES_ECB_encrypt_def AES_ECB_decrypt_def rk InvCipher_nist_aborts
          Cipher_textbook [OF length_nist_plain1] nist_block1 simp_thms)
qed

theorem ECB_decrypt_aborts_witness:
  "length (RoundKey \<lparr>RoundKey = replicate 176 0, Iv = []\<rparr>) = 176 \<and>
   AES_ECB_encrypt AES128 (AES_init_ctx AES128 \<lparr>RoundKey = replicate 176 0, Iv = []\<rparr> nist_key)
     nist_plain1 = Inr nist_cipher1 \<and>
   AES_ECB_decrypt AES128 (AES_init_ctx AES128 \<lparr>RoundKey = replicate 176 0, Iv = []\<rparr> nist_key)
     (encode_state nist_cipher1) nist_cipher1 = Inl (Exit 2)"
proof -
  have len: "length (RoundKey \<lparr>RoundKey = replicate 176 0, Iv = []\<rparr>) = 176"
    by simp
  show ?thesis
    using len ECB_decrypt_aborts [OF len] by (rule conjI)
qed

section \<open>CBC and the length\<close>

lemma XorWithIv_zero:
  "XorWithIv nist_plain1 [0, 0, 0, 0, 0, 0, 0, 0, 0, 0, 0, 0, 0, 0, 0, 0] = nist_plain1"
  by (simp add: XorWithIv_def AES_BLOCKLEN_def upt_0_16 nist_plain1_def list_update_Cons_numeral)

text \<open>
  C8, as the code has it.  \<^verbatim>\<open>AES_CBC_encrypt_buffer\<close> and \<^verbatim>\<open>AES_CBC_decrypt_buffer\<close>
  make no check of the length: the loop runs while \<^verbatim>\<open>i < length\<close> in steps of 16,
  so a call whose length is not a multiple of 16 does what the call with the
  length rounded up to the next multiple of 16 does, the last block in full.
\<close>

theorem CBC_no_length_check:
  "AES_CBC_encrypt_buffer v ctx buf len =
     AES_CBC_encrypt_buffer v ctx buf (16 * ((len + 15) div 16)) \<and>
   AES_CBC_decrypt_buffer v ctx garbage buf len =
     AES_CBC_decrypt_buffer v ctx garbage buf (16 * ((len + 15) div 16))"
  by (simp add: AES_CBC_encrypt_buffer_def AES_CBC_decrypt_buffer_def
      CBC_encrypt_loop_round_up CBC_decrypt_loop_round_up)

theorem CBC_no_length_check_witness:
  "AES_CBC_encrypt_buffer AES128 \<lparr>RoundKey = nist_round_keys, Iv = nist_key\<rparr> nist_plain1 1 =
     AES_CBC_encrypt_buffer AES128 \<lparr>RoundKey = nist_round_keys, Iv = nist_key\<rparr> nist_plain1
       (16 * ((1 + 15) div 16)) \<and>
   AES_CBC_decrypt_buffer AES128 \<lparr>RoundKey = nist_round_keys, Iv = nist_key\<rparr> (\<lambda>i. [])
       nist_plain1 1 =
     AES_CBC_decrypt_buffer AES128 \<lparr>RoundKey = nist_round_keys, Iv = nist_key\<rparr> (\<lambda>i. [])
       nist_plain1 (16 * ((1 + 15) div 16))"
  by (rule CBC_no_length_check)

text \<open>
  C8 as stated fails on the code: with length 1 the call is not rejected; it
  encrypts the whole first block in place and stores it as the new IV.
\<close>

theorem CBC_length_counterexample:
  "(1 :: nat) mod 16 \<noteq> 0 \<and>
   AES_CBC_encrypt_buffer AES128
     \<lparr>RoundKey = nist_round_keys, Iv = [0, 0, 0, 0, 0, 0, 0, 0, 0, 0, 0, 0, 0, 0, 0, 0]\<rparr>
     nist_plain1 1 =
     Inr (\<lparr>RoundKey = nist_round_keys, Iv = nist_cipher1\<rparr>, nist_cipher1) \<and>
   nist_cipher1 \<noteq> nist_plain1"
proof -
  have stop: "CBC_encrypt_loop AES128 nist_round_keys 16 (Suc 0) nist_cipher1 [] =
      Inr (nist_cipher1, [])"
    by (subst CBC_encrypt_loop.simps) simp
  have first: "CBC_encrypt_loop AES128 nist_round_keys 0 (Suc 0) [0, 0, 0, 0, 0, 0, 0, 0, 0, 0, 0, 0, 0, 0, 0, 0] nist_plain1 =
      Inr (nist_cipher1, nist_cipher1)"
    by (subst CBC_encrypt_loop.simps)
       (simp add: Let_def XorWithIv_zero AES_BLOCKLEN_def length_nist_plain1
          Cipher_textbook nist_block1 stop)
  have "nist_cipher1 \<noteq> nist_plain1"
    by (simp add: nist_cipher1_def nist_plain1_def)
  then show ?thesis
    by (simp add: AES_CBC_encrypt_buffer_def first AES_BLOCKLEN_def length_nist_cipher1)
qed

end
